theory Spec2Isabelle
  imports Main "HOL-Library.Word" "HOL-Library.Signed_Division"
begin

section \<open>The ping message and Go's 64-bit integers\<close>

text \<open>
  Every timestamp, sequence number and loop counter of \<^verbatim>\<open>pingsrv.go\<close> is a Go
  \<^verbatim>\<open>int64\<close> (Go's \<^verbatim>\<open>int\<close> is taken at its 64-bit width). Go's signed
  arithmetic wraps around silently, so the values are 64-bit words: \<open>+\<close> and \<open>-\<close> wrap,
  \<open>sint\<close> reads a word as the signed number Go prints, and \<open>\<le>s\<close> is Go's \<^verbatim>\<open><=\<close>.
\<close>

type_synonym int64 = "64 word"

text \<open>
  Go's \<^verbatim>\<open>/\<close> on signed integers truncates towards zero; the quotient wraps like
  every other result (only \<open>MinInt64 / -1\<close> does). The two divisors of the program are
  the constants 2 and 3, so the division by zero that panics in Go is never reached.
\<close>

definition int64_div :: "int64 \<Rightarrow> int64 \<Rightarrow> int64" where
  "int64_div a b = word_of_int (sint a sdiv sint b)"

text \<open>
  Modelled from the spec: the wire shape of \<^verbatim>\<open>fgrpc.PingMessage\<close>, whose declaration
  is generated code outside this file: a sequence number and a timestamp, both 64-bit
  integers, and a text payload. The field names are those the program uses.
\<close>

record PingMessage =
  Seq :: int64
  Ts :: int64
  Payload :: string

text \<open>
  A call returns Go's pair of a message pointer and an error: \<open>None\<close> in the first
  component is the \<^verbatim>\<open>nil\<close> pointer, \<open>None\<close> in the second is the \<^verbatim>\<open>nil\<close> error.
\<close>

type_synonym reply = "PingMessage option \<times> string option"

section \<open>The echo responder\<close>

text \<open>
  \<^verbatim>\<open>pingSrv.Ping\<close>: copy the request, overwrite the copy's timestamp with the
  responder's clock, return the copy and no error. The first argument is the value that
  \<^verbatim>\<open>time.Now().UnixNano()\<close> returns while the call is handled; the diagnostic log
  line has no effect on the result. The record scheme stands for whatever further fields
  the message type has: the struct copy carries them along.
\<close>

definition Ping :: "int64 \<Rightarrow> 'a PingMessage_scheme \<Rightarrow> 'a PingMessage_scheme option \<times> string option" where
  "Ping now_UnixNano inp =
     (let out = inp;
          out = out\<lparr>Ts := now_UnixNano\<rparr>
      in (Some out, None))"

section \<open>The measurement client\<close>

subsection \<open>What the client takes from outside\<close>

text \<open>
  The client reads its clock and calls the responder through the transport; both are
  outside the program. The environment fixes what they answer:
  \<^item> \<open>dial addr tls\<close>: whether \<^verbatim>\<open>fgrpc.Dial\<close> returns a connection;
  \<^item> \<open>now k\<close>: the value of the \<open>k\<close>-th \<^verbatim>\<open>time.Now().UnixNano()\<close> of the run
    (counted from 0);
  \<^item> \<open>ping c m\<close>: what the \<open>c\<close>-th \<^verbatim>\<open>cli.Ping\<close> of the run (counted from 0, the
    warm-up call) returns when it sends the message \<open>m\<close>.
\<close>

record env =
  dial :: "string \<Rightarrow> bool \<Rightarrow> bool"
  now :: "nat \<Rightarrow> int64"
  ping :: "nat \<Rightarrow> PingMessage \<Rightarrow> reply"

text \<open>
  Modelled from the spec: the statistics sink \<^verbatim>\<open>stats.Histogram\<close>, whose code is
  outside this file, is a sink with \<^verbatim>\<open>Record(value)\<close>; a histogram is modelled as
  the sequence of the values recorded into it, in order.

  The state of a run: how many clock readings were taken, the calls made so far (each
  with the message sent and the reply), and what was handed to the two histograms and to
  the info log.

  The recorded values are \<^verbatim>\<open>float64(v) / 1000.\<close> for an \<^verbatim>\<open>int64\<close> \<open>v\<close> of
  nanoseconds. The conversion and the floating-point division are the parameter
  \<open>usec\<close> of the client, of any result type \<open>'f\<close>: all that follows holds for whatever
  the floating-point unit computes.
\<close>

record 'f state =
  clk :: nat
  calls :: "(PingMessage \<times> reply) list"
  rttHistogram :: "'f list"
  skewHistogram :: "'f list"
  infolog :: "(int64 \<times> int64 \<times> int64 \<times> int64 \<times> int64) list"

definition init_state :: "'f state" where
  "init_state = \<lparr>clk = 0, calls = [], rttHistogram = [], skewHistogram = [], infolog = []\<rparr>"

definition time_Now_UnixNano :: "env \<Rightarrow> 'f state \<Rightarrow> int64 \<times> 'f state" where
  "time_Now_UnixNano e st = (now e (clk st), st\<lparr>clk := Suc (clk st)\<rparr>)"

definition cli_Ping :: "env \<Rightarrow> PingMessage \<Rightarrow> 'f state \<Rightarrow> reply \<times> 'f state" where
  "cli_Ping e msg st =
     (let r = ping e (length (calls st)) msg
      in (r, st\<lparr>calls := calls st @ [(msg, r)]\<rparr>))"

definition rttHistogram_Record :: "'f \<Rightarrow> 'f state \<Rightarrow> 'f state" where
  "rttHistogram_Record v st = st\<lparr>rttHistogram := rttHistogram st @ [v]\<rparr>"

definition skewHistogram_Record :: "'f \<Rightarrow> 'f state \<Rightarrow> 'f state" where
  "skewHistogram_Record v st = st\<lparr>skewHistogram := skewHistogram st @ [v]\<rparr>"

definition log_Infof :: "int64 \<times> int64 \<times> int64 \<times> int64 \<times> int64 \<Rightarrow> 'f state \<Rightarrow> 'f state" where
  "log_Infof args st = st\<lparr>infolog := infolog st @ [args]\<rparr>"

subsection \<open>How a run ends\<close>

text \<open>
  Modelled from the spec: \<^verbatim>\<open>log.Fatalf\<close>, whose code is outside this file, reports
  its message and ends the run; no statement after it executes.

  A run returns, or it is cut short: by \<^verbatim>\<open>os.Exit(1)\<close>, by \<^verbatim>\<open>log.Fatalf\<close> (with
  its format string and the error), or by the panic of Go's runtime when a field is read
  through a \<^verbatim>\<open>nil\<close> pointer.
\<close>

datatype abort = Exit int | Fatalf string string | NilDereference

datatype status = Returned | Aborted abort

subsection \<open>The sampling loop\<close>

text \<open>
  One pass through the body of the \<^verbatim>\<open>for\<close> loop of \<^verbatim>\<open>pingClientCall\<close>, statement
  by statement. It ends in \<open>Inl\<close> with the reason when the run is cut short, and in
  \<open>Inr\<close> with the message the next pass starts from (\<^verbatim>\<open>msg = res2\<close>) otherwise.

  \<^verbatim>\<open>msg\<close> is a pointer in the source. The message it points to is written only by the
  two assignments at the head of the body and is not shared (after the first pass it is
  the reply the transport allocated), and the transport does not write its wire fields, so
  the message is passed by value here.
\<close>

definition iteration ::
  "(int64 \<Rightarrow> 'f) \<Rightarrow> env \<Rightarrow> int64 \<Rightarrow> PingMessage \<Rightarrow> 'f state
     \<Rightarrow> (abort \<times> 'f state) + (PingMessage \<times> 'f state)" where
  "iteration usec e i msg0 st0 =
     (let msg = msg0\<lparr>Seq := i\<rparr>;
          (t1a, st) = time_Now_UnixNano e st0;
          msg = msg\<lparr>Ts := t1a\<rparr>;
          ((res1, err), st) = cli_Ping e msg st;
          (t2a, st) = time_Now_UnixNano e st
      in case err of
           Some er \<Rightarrow> Inl (Fatalf ''grpc error from Ping1 %v'' er, st)
         | None \<Rightarrow>
          (case res1 of
             None \<Rightarrow> Inl (NilDereference, st)
           | Some res1 \<Rightarrow>
              (let t1b = Ts res1;
                   ((res2, err), st) = cli_Ping e msg st;
                   (t3a, st) = time_Now_UnixNano e st
               in case res2 of
                    None \<Rightarrow> Inl (NilDereference, st)
                  | Some res2 \<Rightarrow>
                     (let t2b = Ts res2
                      in case err of
                           Some er \<Rightarrow> Inl (Fatalf ''grpc error from Ping2 %v'' er, st)
                         | None \<Rightarrow>
                            (let rt1 = t2a - t1a;
                                 st = rttHistogram_Record (usec rt1) st;
                                 rt2 = t3a - t2a;
                                 st = rttHistogram_Record (usec rt2) st;
                                 rtR = t2b - t1b;
                                 st = rttHistogram_Record (usec rtR) st;
                                 midR = t1b + int64_div rtR 2;
                                 avgRtt = int64_div (rt1 + rt2 + rtR) 3;
                                 x = midR - t2a;
                                 st = log_Infof (avgRtt, rt1, rtR, rt2, x) st;
                                 st = skewHistogram_Record (usec x) st
                             in Inr (res2, st))))))"

text \<open>
  The loop \<^verbatim>\<open>for i := 1; i <= n; i++\<close>, entered at the counter \<open>i\<close>. The counter is a
  Go \<^verbatim>\<open>int\<close>: for \<open>n\<close> the largest \<^verbatim>\<open>int\<close> the increment wraps around and the
  condition never fails, so the loop is a partial function, \<open>None\<close> when it runs
  forever.
\<close>

partial_function (option) loop ::
  "(int64 \<Rightarrow> 'f) \<Rightarrow> env \<Rightarrow> int64 \<Rightarrow> int64 \<Rightarrow> PingMessage \<Rightarrow> 'f state
     \<Rightarrow> (status \<times> 'f state) option" where
  "loop usec e i n msg st =
     (if i \<le>s n
      then (case iteration usec e i msg st of
              Inl (a, st') \<Rightarrow> Some (Aborted a, st')
            | Inr (msg', st') \<Rightarrow> loop usec e (i + 1) n msg' st')
      else Some (Returned, st))"

text \<open>
  \<^verbatim>\<open>pingClientCall\<close>: dial, one warm-up call whose reply is dropped, then the loop.
  The two histograms are created empty after the warm-up call; printing them after the
  loop changes nothing that is recorded. The first message has Go's zero values in the
  fields the literal leaves out.
\<close>

definition pingClientCall ::
  "(int64 \<Rightarrow> 'f) \<Rightarrow> env \<Rightarrow> string \<Rightarrow> bool \<Rightarrow> int64 \<Rightarrow> string \<Rightarrow> (status \<times> 'f state) option" where
  "pingClientCall usec e serverAddr tls n payload =
     (if \<not> dial e serverAddr tls then Some (Aborted (Exit 1), init_state)
      else
        (let msg = \<lparr>Seq = 0, Ts = 0, Payload = payload\<rparr>;
             ((res0, err), st) = cli_Ping e msg init_state
         in case err of
              Some er \<Rightarrow> Some (Aborted (Fatalf ''grpc error from Ping0 %v'' er), st)
            | None \<Rightarrow> loop usec e 1 n msg st))"

subsection \<open>The command-line entry of the client\<close>

text \<open>
  Modelled from the spec: the command line is read outside this file. The flags
  \<^verbatim>\<open>exactlyFlag\<close> (a 64-bit count, which the conversion \<^verbatim>\<open>int(...)\<close> keeps as it
  is) and \<^verbatim>\<open>grpcSecureFlag\<close> are declared there, and so is \<^verbatim>\<open>usage\<close>, which
  prints its message and ends the process.

  \<^verbatim>\<open>grpcClient\<close> takes the positional arguments and the flags. The health-check mode
  \<^verbatim>\<open>grpcHealthCheck\<close> is a sibling of the ping client that shares nothing with the skew
  arithmetic; the entry point's result records that call with its arguments and does not
  run it.
\<close>

record flags =
  args :: "string list"
  exactlyFlag :: int64
  grpcSecureFlag :: bool
  doHealthFlag :: bool
  healthSvcFlag :: string
  payloadFlag :: string

datatype 'f outcome =
  Usage string
| HealthCheck string bool string int64
| PingClient "(status \<times> 'f state) option"

definition grpcClient :: "(int64 \<Rightarrow> 'f) \<Rightarrow> env \<Rightarrow> flags \<Rightarrow> 'f outcome" where
  "grpcClient usec e fl =
     (if length (args fl) \<noteq> 1
      then Usage ''Error: fortio grpcping needs host argument in the form of host, host:port or ip:port''
      else
        (let host = args fl ! 0;
             count = exactlyFlag fl;
             count = (if count \<le>s 0 then 1 else count);
             tls = grpcSecureFlag fl
         in if doHealthFlag fl
            then HealthCheck host tls (healthSvcFlag fl) count
            else PingClient (pingClientCall usec e host tls count (payloadFlag fl))))"

section \<open>Reading a run\<close>

text \<open>
  The definitions of this section are not part of the program. They name what the
  theorems talk about: the readings of an iteration, the samples computed from them, and
  the shape of the state after a number of complete iterations.
\<close>

subsection \<open>The loop body, repeated\<close>

text \<open>
  \<open>iterations usec e i c msg st\<close> runs the loop body \<open>c\<close> times in a row, with the
  counter starting at \<open>i\<close> and wrapping as Go's does, and stops at the first pass that is
  cut short. The loop is this function for as long as its condition holds.
\<close>

fun iterations ::
  "(int64 \<Rightarrow> 'f) \<Rightarrow> env \<Rightarrow> int64 \<Rightarrow> nat \<Rightarrow> PingMessage \<Rightarrow> 'f state
     \<Rightarrow> (abort \<times> 'f state) + (PingMessage \<times> 'f state)" where
  "iterations usec e i 0 msg st = Inr (msg, st)"
| "iterations usec e i (Suc c) msg st =
     (case iteration usec e i msg st of
        Inl x \<Rightarrow> Inl x
      | Inr (msg', st') \<Rightarrow> iterations usec e (i + 1) c msg' st')"

subsection \<open>The readings and samples of an iteration\<close>

text \<open>
  Iterations are counted from 0 here: iteration \<open>j\<close> is the pass with the loop counter
  \<open>j + 1\<close>. It takes the clock readings \<open>3j\<close>, \<open>3j + 1\<close> and \<open>3j + 2\<close> of the run
  (\<^verbatim>\<open>t1a\<close>, \<^verbatim>\<open>t2a\<close>, \<^verbatim>\<open>t3a\<close>) and makes the calls \<open>2j + 1\<close> and \<open>2j + 2\<close>, call
  0 being the warm-up; \<^verbatim>\<open>t1b\<close> and \<^verbatim>\<open>t2b\<close> are the timestamps of the two replies.
\<close>

definition t1a :: "env \<Rightarrow> nat \<Rightarrow> int64" where
  "t1a e j = now e (3 * j)"

definition t2a :: "env \<Rightarrow> nat \<Rightarrow> int64" where
  "t2a e j = now e (3 * j + 1)"

definition t3a :: "env \<Rightarrow> nat \<Rightarrow> int64" where
  "t3a e j = now e (3 * j + 2)"

definition reply_Ts :: "(PingMessage \<times> reply) list \<Rightarrow> nat \<Rightarrow> int64" where
  "reply_Ts cs c = (case fst (snd (cs ! c)) of Some r \<Rightarrow> Ts r | None \<Rightarrow> 0)"

definition t1b :: "(PingMessage \<times> reply) list \<Rightarrow> nat \<Rightarrow> int64" where
  "t1b cs j = reply_Ts cs (2 * j + 1)"

definition t2b :: "(PingMessage \<times> reply) list \<Rightarrow> nat \<Rightarrow> int64" where
  "t2b cs j = reply_Ts cs (2 * j + 2)"

text \<open>
  The three round-trip samples and the skew sample of iteration \<open>j\<close>, as the loop body
  computes them from these readings.
\<close>

definition rtt_samples :: "(int64 \<Rightarrow> 'f) \<Rightarrow> env \<Rightarrow> (PingMessage \<times> reply) list \<Rightarrow> nat \<Rightarrow> 'f list" where
  "rtt_samples usec e cs j =
     [usec (t2a e j - t1a e j), usec (t3a e j - t2a e j), usec (t2b cs j - t1b cs j)]"

definition skew_sample :: "(int64 \<Rightarrow> 'f) \<Rightarrow> env \<Rightarrow> (PingMessage \<times> reply) list \<Rightarrow> nat \<Rightarrow> 'f" where
  "skew_sample usec e cs j = usec (t1b cs j + int64_div (t2b cs j - t1b cs j) 2 - t2a e j)"

subsection \<open>Well-formed traces\<close>

text \<open>A call went well when it returned a message and no error.\<close>

definition reply_ok :: "reply \<Rightarrow> bool" where
  "reply_ok r \<longleftrightarrow> fst r \<noteq> None \<and> snd r = None"

text \<open>
  \<open>samples_ok\<close>: the histograms hold the samples of the first \<open>J\<close> iterations, in order.
  \<open>trace_ok\<close>: every reply in the trace is what the environment answers to the message
  sent. \<open>requests_ok\<close>: every timed call sends the reading \<^verbatim>\<open>t1a\<close> and the counter of
  its iteration, and the second call of an iteration sends the message of the first.
  \<open>replies_ok cs k\<close>: the warm-up call returned no error and the timed calls before the
  \<open>k\<close>-th went well.
\<close>

definition samples_ok :: "(int64 \<Rightarrow> 'f) \<Rightarrow> env \<Rightarrow> nat \<Rightarrow> 'f state \<Rightarrow> bool" where
  "samples_ok usec e J st \<longleftrightarrow>
     rttHistogram st = concat (map (rtt_samples usec e (calls st)) [0..<J]) \<and>
     skewHistogram st = map (skew_sample usec e (calls st)) [0..<J]"

definition trace_ok :: "env \<Rightarrow> (PingMessage \<times> reply) list \<Rightarrow> bool" where
  "trace_ok e cs \<longleftrightarrow> (\<forall>c<length cs. snd (cs ! c) = ping e c (fst (cs ! c)))"

definition request_ok :: "env \<Rightarrow> (PingMessage \<times> reply) list \<Rightarrow> nat \<Rightarrow> bool" where
  "request_ok e cs c \<longleftrightarrow>
     Ts (fst (cs ! c)) = t1a e ((c - 1) div 2) \<and>
     Seq (fst (cs ! c)) = of_nat ((c - 1) div 2) + 1 \<and>
     (even c \<longrightarrow> fst (cs ! c) = fst (cs ! (c - 1)))"

definition requests_ok :: "env \<Rightarrow> (PingMessage \<times> reply) list \<Rightarrow> bool" where
  "requests_ok e cs \<longleftrightarrow> (\<forall>c<length cs. 0 < c \<longrightarrow> request_ok e cs c)"

definition replies_ok :: "(PingMessage \<times> reply) list \<Rightarrow> nat \<Rightarrow> bool" where
  "replies_ok cs k \<longleftrightarrow>
     snd (snd (cs ! 0)) = None \<and> (\<forall>c<k. 0 < c \<longrightarrow> reply_ok (snd (cs ! c)))"

text \<open>
  The state after the warm-up call and \<open>J\<close> complete iterations, and the state of a run
  cut short in iteration \<open>J\<close>, after its first or after its second call.
\<close>

definition completed :: "(int64 \<Rightarrow> 'f) \<Rightarrow> env \<Rightarrow> nat \<Rightarrow> 'f state \<Rightarrow> bool" where
  "completed usec e J st \<longleftrightarrow>
     clk st = 3 * J \<and> length (calls st) = 2 * J + 1 \<and> samples_ok usec e J st \<and>
     trace_ok e (calls st) \<and> requests_ok e (calls st) \<and> replies_ok (calls st) (length (calls st))"

definition cut_short :: "(int64 \<Rightarrow> 'f) \<Rightarrow> env \<Rightarrow> nat \<Rightarrow> 'f state \<Rightarrow> bool" where
  "cut_short usec e J st \<longleftrightarrow>
     (length (calls st) = 2 * J + 2 \<or> length (calls st) = 2 * J + 3) \<and>
     clk st = length (calls st) + J \<and> samples_ok usec e J st \<and>
     trace_ok e (calls st) \<and> requests_ok e (calls st) \<and>
     replies_ok (calls st) (length (calls st) - 1) \<and>
     \<not> reply_ok (snd (last (calls st)))"

text \<open>The warm-up message, and the state once the warm-up call is made.\<close>

definition msg0 :: "string \<Rightarrow> PingMessage" where
  "msg0 payload = \<lparr>Seq = 0, Ts = 0, Payload = payload\<rparr>"

definition warmed_up :: "env \<Rightarrow> string \<Rightarrow> 'f state" where
  "warmed_up e payload = init_state\<lparr>calls := [(msg0 payload, ping e 0 (msg0 payload))]\<rparr>"

text \<open>The state a run ends in (the empty state for a run that does not end).\<close>

definition final :: "(status \<times> 'f state) option \<Rightarrow> 'f state" where
  "final res = (case res of Some (r, st) \<Rightarrow> st | None \<Rightarrow> init_state)"

text \<open>
  What a call of the trace shows of the responder: the timestamp of the reply, if a
  message came back, and whether the call returned no error.
\<close>

definition stamp :: "PingMessage \<times> reply \<Rightarrow> int64 option \<times> bool" where
  "stamp c = (map_option Ts (fst (snd c)), snd (snd c) = None)"

section \<open>Environments for worked examples\<close>

text \<open>
  A simulated network: the client's clock reads \<open>t0\<close> when the first iteration starts,
  every message takes \<open>L\<close> nanoseconds in each direction, nothing else takes time, and
  the responder (the \<open>Ping\<close> above) reads a clock that is \<open>D\<close> nanoseconds ahead of the
  client's. Call \<open>c\<close> reaches the responder at client time \<open>t0 + (2c - 1) L\<close>.
\<close>

definition sim_env :: "int64 \<Rightarrow> int64 \<Rightarrow> int64 \<Rightarrow> env" where
  "sim_env t0 L D =
     \<lparr>dial = (\<lambda>serverAddr tls. True),
      now = (\<lambda>k. t0 + of_nat (k div 3) * (4 * L) + of_nat (k mod 3) * (2 * L)),
      ping = (\<lambda>c msg. Ping (t0 + of_nat (2 * c) * L - L + D) msg)\<rparr>"

text \<open>The same environment with the transport failing at call \<open>k\<close>.\<close>

definition failing_at :: "nat \<Rightarrow> env \<Rightarrow> env" where
  "failing_at k e =
     e\<lparr>ping := (\<lambda>c msg. if c = k then (None, Some ''unavailable'') else ping e c msg)\<rparr>"

text \<open>
  A stand-in for the floating-point conversion in the worked examples: whole
  microseconds.
\<close>

definition whole_usec :: "int64 \<Rightarrow> int" where
  "whole_usec v = sint v sdiv 1000"

text \<open>A command line asking for zero calls of one host, in ping mode.\<close>

definition zero_count_flags :: flags where
  "zero_count_flags =
     \<lparr>args = [''host''], exactlyFlag = 0, grpcSecureFlag = False, doHealthFlag = False,
      healthSvcFlag = [], payloadFlag = ''x''\<rparr>"

text \<open>
  A responder whose clock is \<open>2\<^sup>6\<^sup>3\<close> nanoseconds ahead of the client's, 500
  nanoseconds away in each direction: the client reads \<open>-2\<^sup>6\<^sup>3\<close>, and 1000 more at
  each later reading; call \<open>c\<close> reaches the responder when its clock reads
  \<open>1000 c - 500\<close>. Every reading is an \<^verbatim>\<open>int64\<close>.
\<close>

definition ahead_env :: env where
  "ahead_env =
     \<lparr>dial = (\<lambda>serverAddr tls. True),
      now = (\<lambda>k. - 9223372036854775808 + of_nat k * 1000),
      ping = (\<lambda>c msg. (Some (msg\<lparr>Ts := of_nat c * 1000 - 500\<rparr>), None))\<rparr>"

text \<open>
  A responder whose clock jumps forward: the client's readings are a millisecond apart,
  the responder stamps the warm-up call and the first timed call with
  \<open>-5 \<times> 10\<^sup>1\<^sup>8\<close> and every later call with \<open>5 \<times> 10\<^sup>1\<^sup>8\<close>. No reading of either
  clock is smaller than the one before.
\<close>

definition jump_env :: env where
  "jump_env =
     \<lparr>dial = (\<lambda>serverAddr tls. True),
      now = (\<lambda>k. 1000000 + of_nat k * 1000000),
      ping = (\<lambda>c msg. (Some (msg\<lparr>Ts := (if c \<le> 1 then - 5000000000000000000
                                           else 5000000000000000000)\<rparr>), None))\<rparr>"


text \<open>
  The same environment with a responder that returns its own sequence number and payload
  and leaves the timestamps as they are.
\<close>

definition garbling :: "env \<Rightarrow> env" where
  "garbling e =
     e\<lparr>ping := (\<lambda>c msg. case ping e c msg of
                   (Some r, er) \<Rightarrow> (Some (r\<lparr>Seq := 0, Payload := ''garbled''\<rparr>), er)
                 | (None, er) \<Rightarrow> (None, er))\<rparr>"

section \<open>Properties of the model\<close>

subsection \<open>The loop body in one piece\<close>

text \<open>
  The body as a function of the two replies alone: which reply ends the pass, and the
  state each way.
\<close>

lemma iteration_unfold:
  "iteration usec e i msg st =
     (let K = clk st; C = length (calls st); m = msg\<lparr>Seq := i, Ts := now e K\<rparr>;
          r1 = ping e C m; r2 = ping e (Suc C) m;
          st1 = st\<lparr>clk := K + 2, calls := calls st @ [(m, r1)]\<rparr>;
          st2 = st\<lparr>clk := K + 3, calls := calls st @ [(m, r1), (m, r2)]\<rparr>
      in case snd r1 of
           Some er \<Rightarrow> Inl (Fatalf ''grpc error from Ping1 %v'' er, st1)
         | None \<Rightarrow>
           (case fst r1 of
              None \<Rightarrow> Inl (NilDereference, st1)
            | Some res1 \<Rightarrow>
              (case fst r2 of
                 None \<Rightarrow> Inl (NilDereference, st2)
               | Some res2 \<Rightarrow>
                 (case snd r2 of
                    Some er \<Rightarrow> Inl (Fatalf ''grpc error from Ping2 %v'' er, st2)
                  | None \<Rightarrow>
                    Inr (res2, st2\<lparr>
                      rttHistogram := rttHistogram st @
                        [usec (now e (K + 1) - now e K), usec (now e (K + 2) - now e (K + 1)),
                         usec (Ts res2 - Ts res1)],
                      skewHistogram := skewHistogram st @
                        [usec (Ts res1 + int64_div (Ts res2 - Ts res1) 2 - now e (K + 1))],
                      infolog := infolog st @
                        [(int64_div (now e (K + 1) - now e K + (now e (K + 2) - now e (K + 1)) + (Ts res2 - Ts res1)) 3,
                          now e (K + 1) - now e K, Ts res2 - Ts res1, now e (K + 2) - now e (K + 1),
                          Ts res1 + int64_div (Ts res2 - Ts res1) 2 - now e (K + 1))]\<rparr>)))))"
  by (cases "ping e (length (calls st)) (msg\<lparr>Seq := i, Ts := now e (clk st)\<rparr>)";
      cases "ping e (Suc (length (calls st))) (msg\<lparr>Seq := i, Ts := now e (clk st)\<rparr>)")
     (simp add: iteration_def Let_def time_Now_UnixNano_def cli_Ping_def rttHistogram_Record_def
      skewHistogram_Record_def log_Infof_def split: option.splits)

subsection \<open>Traces grow at the end\<close>

lemma trace_ok_snoc:
  "trace_ok e cs \<Longrightarrow> r = ping e (length cs) m \<Longrightarrow> trace_ok e (cs @ [(m, r)])"
  by (simp add: trace_ok_def nth_append less_Suc_eq)

lemma request_ok_append:
  "0 < c \<Longrightarrow> c < length cs \<Longrightarrow> request_ok e (cs @ ext) c = request_ok e cs c"
  by (simp add: request_ok_def nth_append)

lemma requests_ok_snoc:
  assumes "requests_ok e cs" and "request_ok e (cs @ [x]) (length cs)"
  shows "requests_ok e (cs @ [x])"
  unfolding requests_ok_def
proof (intro allI impI)
  fix c assume c: "c < length (cs @ [x])" "0 < c"
  then consider "c < length cs" | "c = length cs"
    by fastforce
  then show "request_ok e (cs @ [x]) c"
  proof cases
    case 1
    with assms(1) c show ?thesis
      by (simp add: request_ok_append requests_ok_def)
  next
    case 2
    with assms(2) show ?thesis
      by simp
  qed
qed

lemma replies_ok_snoc:
  "replies_ok cs (length cs) \<Longrightarrow> cs \<noteq> [] \<Longrightarrow> reply_ok r \<Longrightarrow>
     replies_ok (cs @ [(m, r)]) (Suc (length cs))"
  by (simp add: replies_ok_def nth_append less_Suc_eq)

lemma replies_ok_append:
  "replies_ok cs k \<Longrightarrow> k \<le> length cs \<Longrightarrow> cs \<noteq> [] \<Longrightarrow> replies_ok (cs @ ext) k"
  by (simp add: replies_ok_def nth_append)

lemma reply_Ts_append: "c < length cs \<Longrightarrow> reply_Ts (cs @ ext) c = reply_Ts cs c"
  by (simp add: reply_Ts_def nth_append)

lemma rtt_samples_append:
  "2 * j + 2 < length cs \<Longrightarrow> rtt_samples usec e (cs @ ext) j = rtt_samples usec e cs j"
  by (simp add: rtt_samples_def t1b_def t2b_def reply_Ts_append)

lemma skew_sample_append:
  "2 * j + 2 < length cs \<Longrightarrow> skew_sample usec e (cs @ ext) j = skew_sample usec e cs j"
  by (simp add: skew_sample_def t1b_def t2b_def reply_Ts_append)

lemma samples_ok_append:
  assumes "samples_ok usec e J st" and "length (calls st) = 2 * J + 1"
    and "calls st' = calls st @ ext" and "rttHistogram st' = rttHistogram st"
    and "skewHistogram st' = skewHistogram st"
  shows "samples_ok usec e J st'"
proof -
  have "map (rtt_samples usec e (calls st')) [0..<J] = map (rtt_samples usec e (calls st)) [0..<J]"
    using assms(2,3) by (intro map_cong refl) (simp add: rtt_samples_append)
  moreover have "map (skew_sample usec e (calls st')) [0..<J] = map (skew_sample usec e (calls st)) [0..<J]"
    using assms(2,3) by (intro map_cong refl) (simp add: skew_sample_append)
  ultimately show ?thesis
    using assms(1,4,5) by (simp add: samples_ok_def del: map_eq_conv)
qed

lemma samples_ok_Suc:
  assumes "samples_ok usec e J st" and "length (calls st) = 2 * J + 1"
    and "calls st' = calls st @ [(m, (Some r1, er1)), (m', (Some r2, er2))]"
    and "rttHistogram st' = rttHistogram st @
           [usec (now e (3 * J + 1) - now e (3 * J)), usec (now e (3 * J + 2) - now e (3 * J + 1)),
            usec (Ts r2 - Ts r1)]"
    and "skewHistogram st' = skewHistogram st @
           [usec (Ts r1 + int64_div (Ts r2 - Ts r1) 2 - now e (3 * J + 1))]"
  shows "samples_ok usec e (Suc J) st'"
proof -
  have "map (rtt_samples usec e (calls st')) [0..<J] = map (rtt_samples usec e (calls st)) [0..<J]"
    using assms(2,3) by (intro map_cong refl) (simp add: rtt_samples_append)
  moreover have "map (skew_sample usec e (calls st')) [0..<J] = map (skew_sample usec e (calls st)) [0..<J]"
    using assms(2,3) by (intro map_cong refl) (simp add: skew_sample_append)
  moreover have "t1b (calls st') J = Ts r1" and "t2b (calls st') J = Ts r2"
    using assms(2,3) by (simp_all add: t1b_def t2b_def reply_Ts_def nth_append)
  moreover have "rtt_samples usec e (calls st') J =
      [usec (now e (3 * J + 1) - now e (3 * J)), usec (now e (3 * J + 2) - now e (3 * J + 1)),
       usec (Ts r2 - Ts r1)]"
    and "skew_sample usec e (calls st') J =
      usec (Ts r1 + int64_div (Ts r2 - Ts r1) 2 - now e (3 * J + 1))"
    using calculation(3,4) by (simp_all add: rtt_samples_def skew_sample_def t1a_def t2a_def t3a_def)
  ultimately show ?thesis
    using assms(1,4,5) by (simp add: samples_ok_def del: map_eq_conv)
qed

text \<open>The trace after the first and after the second call of a pass.\<close>

lemma calls_first:
  assumes "completed usec e J st" and "m = msg\<lparr>Seq := of_nat J + 1, Ts := now e (3 * J)\<rparr>"
    and "r1 = ping e (2 * J + 1) m"
  shows "trace_ok e (calls st @ [(m, r1)])" and "requests_ok e (calls st @ [(m, r1)])"
    and "replies_ok (calls st @ [(m, r1)]) (length (calls st))"
    and "reply_ok r1 \<Longrightarrow> replies_ok (calls st @ [(m, r1)]) (Suc (length (calls st)))"
proof -
  from assms(1) have C: "length (calls st) = 2 * J + 1" and ne: "calls st \<noteq> []"
    and T: "trace_ok e (calls st)" and R: "replies_ok (calls st) (length (calls st))"
    by (auto simp: completed_def)
  show "trace_ok e (calls st @ [(m, r1)])"
    by (rule trace_ok_snoc) (use T assms(3) C in \<open>simp_all\<close>)
  have "request_ok e (calls st @ [(m, r1)]) (length (calls st))"
    by (simp add: request_ok_def C assms(2) t1a_def nth_append)
  moreover from assms(1) have "requests_ok e (calls st)"
    by (simp add: completed_def)
  ultimately show "requests_ok e (calls st @ [(m, r1)])"
    by (simp add: requests_ok_snoc)
  show "replies_ok (calls st @ [(m, r1)]) (length (calls st))"
    by (rule replies_ok_append) (use R ne in \<open>simp_all\<close>)
  show "reply_ok r1 \<Longrightarrow> replies_ok (calls st @ [(m, r1)]) (Suc (length (calls st)))"
    by (rule replies_ok_snoc) (use R ne in \<open>simp_all\<close>)
qed

lemma calls_second:
  assumes "completed usec e J st" and "m = msg\<lparr>Seq := of_nat J + 1, Ts := now e (3 * J)\<rparr>"
    and "r1 = ping e (2 * J + 1) m" and "r2 = ping e (2 * J + 2) m" and "reply_ok r1"
  shows "trace_ok e (calls st @ [(m, r1), (m, r2)])"
    and "requests_ok e (calls st @ [(m, r1), (m, r2)])"
    and "replies_ok (calls st @ [(m, r1), (m, r2)]) (Suc (length (calls st)))"
    and "reply_ok r2 \<Longrightarrow> replies_ok (calls st @ [(m, r1), (m, r2)]) (Suc (Suc (length (calls st))))"
proof -
  let ?cs = "calls st @ [(m, r1)]"
  from assms(1) have C: "length (calls st) = 2 * J + 1"
    by (simp add: completed_def)
  note first = calls_first [OF assms(1,2,3)]
  have "trace_ok e (?cs @ [(m, r2)])"
    by (rule trace_ok_snoc) (use first(1) assms(4) C in \<open>simp_all\<close>)
  then show "trace_ok e (calls st @ [(m, r1), (m, r2)])"
    by simp
  have "(2 * J + 1) div 2 = J"
    by simp
  then have "request_ok e (?cs @ [(m, r2)]) (length ?cs)"
    by (simp add: request_ok_def C assms(2) t1a_def nth_append)
  with first(2) have "requests_ok e (?cs @ [(m, r2)])"
    by (simp only: requests_ok_snoc)
  then show "requests_ok e (calls st @ [(m, r1), (m, r2)])"
    by simp
  have "replies_ok (?cs @ [(m, r2)]) (Suc (length (calls st)))"
    by (rule replies_ok_append) (use first(4) [OF assms(5)] in \<open>simp_all\<close>)
  then show "replies_ok (calls st @ [(m, r1), (m, r2)]) (Suc (length (calls st)))"
    by simp
  have "reply_ok r2 \<Longrightarrow> replies_ok (?cs @ [(m, r2)]) (Suc (length ?cs))"
    by (rule replies_ok_snoc) (use first(4) [OF assms(5)] in \<open>simp_all\<close>)
  then show "reply_ok r2 \<Longrightarrow> replies_ok (calls st @ [(m, r1), (m, r2)]) (Suc (Suc (length (calls st))))"
    by simp
qed

subsection \<open>One pass from a well-formed state\<close>

lemma iteration_ok:
  assumes "completed usec e J st" and "m = msg\<lparr>Seq := of_nat J + 1, Ts := now e (3 * J)\<rparr>"
    and "ping e (2 * J + 1) m = (Some res1, None)" and "ping e (2 * J + 2) m = (Some res2, None)"
  shows "\<exists>st'. iteration usec e (of_nat J + 1) msg st = Inr (res2, st') \<and>
           completed usec e (Suc J) st'"
proof -
  from assms(1) have K: "clk st = 3 * J" and C: "length (calls st) = 2 * J + 1"
    and S: "samples_ok usec e J st"
    by (simp_all add: completed_def)
  let ?st = "st\<lparr>clk := 3 * J + 3,
        calls := calls st @ [(m, (Some res1, None)), (m, (Some res2, None))],
        rttHistogram := rttHistogram st @
          [usec (now e (3 * J + 1) - now e (3 * J)), usec (now e (3 * J + 2) - now e (3 * J + 1)),
           usec (Ts res2 - Ts res1)],
        skewHistogram := skewHistogram st @
          [usec (Ts res1 + int64_div (Ts res2 - Ts res1) 2 - now e (3 * J + 1))],
        infolog := infolog st @
          [(int64_div (now e (3 * J + 1) - now e (3 * J) + (now e (3 * J + 2) - now e (3 * J + 1)) + (Ts res2 - Ts res1)) 3,
            now e (3 * J + 1) - now e (3 * J), Ts res2 - Ts res1, now e (3 * J + 2) - now e (3 * J + 1),
            Ts res1 + int64_div (Ts res2 - Ts res1) 2 - now e (3 * J + 1))]\<rparr>"
  have run: "iteration usec e (of_nat J + 1) msg st = Inr (res2, ?st)"
    unfolding iteration_unfold K C Let_def
    using assms(3,4) by (simp add: assms(2) [symmetric])
  have ok: "reply_ok (Some res1, None)" "reply_ok (Some res2, None)"
    by (simp_all add: reply_ok_def)
  note second = calls_second [OF assms(1,2) assms(3) [symmetric] assms(4) [symmetric] ok(1)]
  have "samples_ok usec e (Suc J) ?st"
    by (rule samples_ok_Suc [OF S C]) simp_all
  moreover have "replies_ok (calls ?st) (length (calls ?st))"
    using second(4) [OF ok(2)] by simp
  ultimately have "completed usec e (Suc J) ?st"
    using second(1,2) C by (simp add: completed_def)
  with run show ?thesis
    by blast
qed

lemma iteration_fails:
  assumes "completed usec e J st" and "m = msg\<lparr>Seq := of_nat J + 1, Ts := now e (3 * J)\<rparr>"
    and "\<not> reply_ok (ping e (2 * J + 1) m) \<or> \<not> reply_ok (ping e (2 * J + 2) m)"
  shows "\<exists>a st'. iteration usec e (of_nat J + 1) msg st = Inl (a, st') \<and> cut_short usec e J st'"
proof -
  from assms(1) have K: "clk st = 3 * J" and C: "length (calls st) = 2 * J + 1"
    and S: "samples_ok usec e J st"
    by (simp_all add: completed_def)
  obtain a1 b1 where r1: "ping e (2 * J + 1) m = (a1, b1)"
    by (cases "ping e (2 * J + 1) m")
  obtain a2 b2 where r2: "ping e (2 * J + 2) m = (a2, b2)"
    by (cases "ping e (2 * J + 2) m")
  let ?st1 = "st\<lparr>clk := 3 * J + 2, calls := calls st @ [(m, (a1, b1))]\<rparr>"
  let ?st2 = "st\<lparr>clk := 3 * J + 3, calls := calls st @ [(m, (a1, b1)), (m, (a2, b2))]\<rparr>"
  note first = calls_first [OF assms(1,2) r1 [symmetric]]
  show ?thesis
  proof (cases "reply_ok (a1, b1)")
    case False
    then have "\<exists>a. iteration usec e (of_nat J + 1) msg st = Inl (a, ?st1)"
      unfolding iteration_unfold K C Let_def
      using r1 r2 by (auto simp: assms(2) [symmetric] reply_ok_def split: option.splits)
    moreover have "samples_ok usec e J ?st1"
      by (rule samples_ok_append [OF S C]) simp_all
    then have "cut_short usec e J ?st1"
      using first(1,2,3) False C by (simp add: cut_short_def)
    ultimately show ?thesis
      by blast
  next
    case True
    with assms(3) r1 r2 have bad: "\<not> reply_ok (a2, b2)"
      by simp
    note second = calls_second [OF assms(1,2) r1 [symmetric] r2 [symmetric] True]
    from True bad have "\<exists>a. iteration usec e (of_nat J + 1) msg st = Inl (a, ?st2)"
      unfolding iteration_unfold K C Let_def
      using r1 r2 by (auto simp: assms(2) [symmetric] reply_ok_def split: option.splits)
    moreover have "samples_ok usec e J ?st2"
      by (rule samples_ok_append [OF S C]) simp_all
    then have "cut_short usec e J ?st2"
      using second(1,2,3) bad C by (simp add: cut_short_def)
    ultimately show ?thesis
      by blast
  qed
qed

lemma reply_ok_iff: "reply_ok r \<longleftrightarrow> (\<exists>res. r = (Some res, None))"
  by (cases r) (auto simp: reply_ok_def)

lemma iteration_Inr:
  assumes "iteration usec e (of_nat J + 1) msg st = Inr (msg', st')" and "completed usec e J st"
  shows "completed usec e (Suc J) st'"
proof -
  let ?m = "msg\<lparr>Seq := of_nat J + 1, Ts := now e (3 * J)\<rparr>"
  show ?thesis
  proof (cases "reply_ok (ping e (2 * J + 1) ?m) \<and> reply_ok (ping e (2 * J + 2) ?m)")
    case True
    then obtain res1 res2 where "ping e (2 * J + 1) ?m = (Some res1, None)"
      and "ping e (2 * J + 2) ?m = (Some res2, None)"
      by (auto simp: reply_ok_iff)
    from iteration_ok [OF assms(2) refl this] assms(1) show ?thesis
      by auto
  next
    case False
    then have "\<not> reply_ok (ping e (2 * J + 1) ?m) \<or> \<not> reply_ok (ping e (2 * J + 2) ?m)"
      by simp
    from iteration_fails [OF assms(2) refl this] assms(1) show ?thesis
      by auto
  qed
qed

lemma iteration_Inl:
  assumes "iteration usec e (of_nat J + 1) msg st = Inl (a, st')" and "completed usec e J st"
  shows "cut_short usec e J st'"
proof -
  let ?m = "msg\<lparr>Seq := of_nat J + 1, Ts := now e (3 * J)\<rparr>"
  show ?thesis
  proof (cases "reply_ok (ping e (2 * J + 1) ?m) \<and> reply_ok (ping e (2 * J + 2) ?m)")
    case True
    then obtain res1 res2 where "ping e (2 * J + 1) ?m = (Some res1, None)"
      and "ping e (2 * J + 2) ?m = (Some res2, None)"
      by (auto simp: reply_ok_iff)
    from iteration_ok [OF assms(2) refl this] assms(1) show ?thesis
      by auto
  next
    case False
    then have "\<not> reply_ok (ping e (2 * J + 1) ?m) \<or> \<not> reply_ok (ping e (2 * J + 2) ?m)"
      by simp
    from iteration_fails [OF assms(2) refl this] assms(1) show ?thesis
      by auto
  qed
qed

subsection \<open>Several passes, and the loop\<close>

lemma iterations_completed:
  "completed usec e J st \<Longrightarrow> iterations usec e (of_nat J + 1) c msg st = Inr (msg', st') \<Longrightarrow>
     completed usec e (J + c) st'"
proof (induction c arbitrary: J msg st)
  case 0
  then show ?case by simp
next
  case (Suc c)
  from Suc.prems(2) obtain m1 st1 where
    it: "iteration usec e (of_nat J + 1) msg st = Inr (m1, st1)"
    and rest: "iterations usec e (of_nat (Suc J) + 1) c m1 st1 = Inr (msg', st')"
    by (auto simp: add.commute split: sum.splits)
  from iteration_Inr [OF it Suc.prems(1)] have "completed usec e (Suc J) st1" .
  from Suc.IH [OF this rest] show ?case
    by simp
qed

lemma iterations_cut_short:
  "completed usec e J st \<Longrightarrow> iterations usec e (of_nat J + 1) c msg st = Inl (a, st') \<Longrightarrow>
     \<exists>J'. J \<le> J' \<and> J' < J + c \<and> cut_short usec e J' st'"
proof (induction c arbitrary: J msg st)
  case 0
  then show ?case by simp
next
  case (Suc c)
  show ?case
  proof (cases "iteration usec e (of_nat J + 1) msg st")
    case (Inl x)
    with Suc.prems(2) have "iteration usec e (of_nat J + 1) msg st = Inl (a, st')"
      by simp
    from iteration_Inl [OF this Suc.prems(1)] show ?thesis
      by (intro exI [of _ J]) simp
  next
    case (Inr y)
    obtain m1 st1 where y: "y = (m1, st1)"
      by (cases y)
    with Inr Suc.prems(2) have rest: "iterations usec e (of_nat (Suc J) + 1) c m1 st1 = Inl (a, st')"
      by (simp add: add.commute)
    from Inr y have "completed usec e (Suc J) st1"
      using iteration_Inr [OF _ Suc.prems(1)] by simp
    from Suc.IH [OF this rest] obtain J' where "Suc J \<le> J'" "J' < Suc J + c" "cut_short usec e J' st'"
      by blast
    then show ?thesis
      by (intro exI [of _ J']) simp
  qed
qed

lemma loop_unroll:
  "(\<forall>d<c. i + of_nat d \<le>s n) \<Longrightarrow>
     loop usec e i n msg st =
       (case iterations usec e i c msg st of
          Inl (a, st') \<Rightarrow> Some (Aborted a, st')
        | Inr (msg', st') \<Rightarrow> loop usec e (i + of_nat c) n msg' st')"
proof (induction c arbitrary: i msg st)
  case 0
  then show ?case by simp
next
  case (Suc c)
  from Suc.prems have i: "i \<le>s n" and rest: "\<forall>d<c. (i + 1) + of_nat d \<le>s n"
    by (auto simp: add.assoc dest: spec [of _ "Suc _"] spec [of _ 0])
  show ?case
  proof (cases "iteration usec e i msg st")
    case (Inl x)
    with i show ?thesis
      by (subst loop.simps) (simp split: prod.splits)
  next
    case (Inr y)
    obtain m1 st1 where y: "y = (m1, st1)"
      by (cases y)
    have eq: "i + of_nat (Suc c) = i + 1 + of_nat c"
      by simp
    have "loop usec e i n msg st = loop usec e (i + 1) n m1 st1"
      using i Inr y by (subst loop.simps) simp
    with Suc.IH [OF rest, of m1 st1] Inr y show ?thesis
      unfolding eq by simp
  qed
qed

lemma loop_returns:
  assumes "loop usec e i n msg st = Some (r, st')"
  shows "\<exists>c. (\<forall>d<c. i + of_nat d \<le>s n) \<and>
           (case iterations usec e i c msg st of
              Inl (a, st'') \<Rightarrow> r = Aborted a \<and> st' = st''
            | Inr (msg', st'') \<Rightarrow> r = Returned \<and> st' = st'' \<and> \<not> i + of_nat c \<le>s n)"
proof -
  define y where "y = (r, st')"
  define P where "P = (\<lambda>(u :: int64 \<Rightarrow> 'a) e' i n' msg st y. u = usec \<and> e' = e \<and> n' = n \<longrightarrow>
      (\<exists>c. (\<forall>d<c. i + of_nat d \<le>s n) \<and>
           (case iterations usec e i c msg st of
              Inl (a, st'') \<Rightarrow> fst y = Aborted a \<and> snd y = st''
            | Inr (msg', st'') \<Rightarrow> fst y = Returned \<and> snd y = st'' \<and> \<not> i + of_nat c \<le>s n)))"
  from assms have run: "loop usec e i n msg st = Some y"
    by (simp add: y_def)
  have "P usec e i n msg st y"
  proof (rule loop.raw_induct [where P = P, OF _ run])
    fix loop' :: "(int64 \<Rightarrow> 'a) \<Rightarrow> env \<Rightarrow> int64 \<Rightarrow> int64 \<Rightarrow> PingMessage \<Rightarrow> 'a state
      \<Rightarrow> (status \<times> 'a state) option"
    fix u e' i n' msg st y
    assume IH: "\<And>u e' i n' msg st y. loop' u e' i n' msg st = Some y \<Longrightarrow> P u e' i n' msg st y"
    assume body: "(if i \<le>s n'
      then (case iteration u e' i msg st of
              Inl (a, st') \<Rightarrow> Some (Aborted a, st')
            | Inr (msg', st') \<Rightarrow> loop' u e' (i + 1) n' msg' st')
      else Some (Returned, st)) = Some y"
    show "P u e' i n' msg st y"
      unfolding P_def
    proof (intro impI, elim conjE)
      assume eq: "u = usec" "e' = e" "n' = n"
      show "\<exists>c. (\<forall>d<c. i + of_nat d \<le>s n) \<and>
           (case iterations usec e i c msg st of
              Inl (a, st'') \<Rightarrow> fst y = Aborted a \<and> snd y = st''
            | Inr (msg', st'') \<Rightarrow> fst y = Returned \<and> snd y = st'' \<and> \<not> i + of_nat c \<le>s n)"
      proof (cases "i \<le>s n")
        case False
        with body eq have "y = (Returned, st)"
          by simp
        with False show ?thesis
          by (intro exI [of _ 0]) simp
      next
        case True
        show ?thesis
        proof (cases "iteration usec e i msg st")
          case (Inl x)
          with body eq True have "y = (Aborted (fst x), snd x)"
            by (auto split: prod.splits)
          with Inl True show ?thesis
            by (intro exI [of _ 1]) (simp split: prod.splits)
        next
          case (Inr z)
          obtain m1 st1 where z: "z = (m1, st1)"
            by (cases z)
          with body eq True Inr have "loop' usec e (i + 1) n m1 st1 = Some y"
            by simp
          from IH [OF this] obtain c where
            c: "\<forall>d<c. i + 1 + of_nat d \<le>s n"
            and res: "case iterations usec e (i + 1) c m1 st1 of
              Inl (a, st'') \<Rightarrow> fst y = Aborted a \<and> snd y = st''
            | Inr (msg', st'') \<Rightarrow> fst y = Returned \<and> snd y = st'' \<and> \<not> i + 1 + of_nat c \<le>s n"
            by (auto simp: P_def)
          have "\<forall>d<Suc c. i + of_nat d \<le>s n"
          proof (intro allI impI)
            fix d assume "d < Suc c"
            then show "i + of_nat d \<le>s n"
              using True c by (cases d) (simp_all add: add.assoc)
          qed
          moreover have eq': "i + of_nat (Suc c) = i + 1 + of_nat c"
            by simp
          from res Inr z have "case iterations usec e i (Suc c) msg st of
              Inl (a, st'') \<Rightarrow> fst y = Aborted a \<and> snd y = st''
            | Inr (msg', st'') \<Rightarrow> fst y = Returned \<and> snd y = st'' \<and> \<not> i + of_nat (Suc c) \<le>s n"
            unfolding eq' by simp
          ultimately show ?thesis
            by blast
        qed
      qed
    qed
  qed
  then show ?thesis
    unfolding P_def y_def fst_conv snd_conv by simp
qed

subsection \<open>The loop counter\<close>

text \<open>
  The counter of iteration \<open>J\<close> is \<open>of_nat J + 1\<close>. Below the largest \<^verbatim>\<open>int64\<close> it
  does not wrap, and the loop leaves after exactly \<open>nat (sint n)\<close> passes.
\<close>

lemma sint64_of_int:
  "- (2 ^ 63) \<le> k \<Longrightarrow> k < 2 ^ 63 \<Longrightarrow> sint (word_of_int k :: int64) = k"
  by (simp add: sint_sbintrunc' signed_take_bit_int_eq_self)

lemma sint64_counter:
  assumes "int c < 2 ^ 63 - 1"
  shows "sint (of_nat c + 1 :: int64) = int c + 1"
proof -
  have "(of_nat c + 1 :: int64) = word_of_int (int c + 1)"
    by simp
  with assms show ?thesis
    by (simp only: sint64_of_int)
qed

lemma sint64_le_max: "sint (w :: int64) \<le> 2 ^ 63 - 1"
  using sint_lt [of w] by simp

lemma exit_count:
  assumes "\<forall>d<c. of_nat d + 1 \<le>s (n :: int64)" and "\<not> of_nat c + 1 \<le>s n"
  shows "c = nat (sint n)"
proof (rule ccontr)
  assume "c \<noteq> nat (sint n)"
  then consider "c < nat (sint n)" | "nat (sint n) < c"
    by linarith
  then show False
  proof cases
    case 1
    then have "int c < sint n"
      by simp
    moreover from this sint64_le_max [of n] have "sint (of_nat c + 1 :: int64) = int c + 1"
      by (intro sint64_counter) simp
    ultimately show False
      using assms(2) by (simp add: word_sle_eq)
  next
    case 2
    with assms(1) have le: "sint (of_nat (nat (sint n)) + 1 :: int64) \<le> sint n"
      by (simp add: word_sle_eq)
    show False
    proof (cases "sint n < 2 ^ 63 - 1")
      case True
      then have "sint (of_nat (nat (sint n)) + 1 :: int64) = int (nat (sint n)) + 1"
        by (intro sint64_counter) simp
      with le show False
        by (simp split: if_splits)
    next
      case False
      with sint64_le_max [of n] have "sint n = 2 ^ 63 - 1"
        by simp
      with sint64_le_max [of "of_nat c + 1"] assms(2) show False
        by (simp add: word_sle_eq)
    qed
  qed
qed

lemma counter_le:
  assumes "int J < sint (n :: int64)"
  shows "of_nat J + 1 \<le>s n"
proof -
  from assms sint64_le_max [of n] have "sint (of_nat J + 1 :: int64) = int J + 1"
    by (intro sint64_counter) simp
  with assms show ?thesis
    by (simp add: word_sle_eq)
qed

subsection \<open>Whole runs\<close>

lemma pingClientCall_unfold:
  "pingClientCall usec e serverAddr tls n payload =
     (if \<not> dial e serverAddr tls then Some (Aborted (Exit 1), init_state)
      else case snd (ping e 0 (msg0 payload)) of
             Some er \<Rightarrow> Some (Aborted (Fatalf ''grpc error from Ping0 %v'' er), warmed_up e payload)
           | None \<Rightarrow> loop usec e 1 n (msg0 payload) (warmed_up e payload))"
  by (simp add: pingClientCall_def cli_Ping_def init_state_def msg0_def warmed_up_def Let_def
      split: prod.splits option.splits)

lemma completed_warmed_up:
  "snd (ping e 0 (msg0 payload)) = None \<Longrightarrow> completed usec e 0 (warmed_up e payload)"
  by (simp add: completed_def warmed_up_def init_state_def samples_ok_def trace_ok_def
      requests_ok_def replies_ok_def)

lemma one_plus: "(1 :: int64) + of_nat d = of_nat d + 1"
  by simp

lemma pingClientCall_cases:
  assumes "pingClientCall usec e serverAddr tls n payload = Some (r, st)"
  obtains
    (no_connection) "\<not> dial e serverAddr tls" "r = Aborted (Exit 1)" "st = init_state"
  | (warm_up_failed) er where "dial e serverAddr tls" "snd (ping e 0 (msg0 payload)) = Some er"
      "r = Aborted (Fatalf ''grpc error from Ping0 %v'' er)" "st = warmed_up e payload"
  | (returned) "dial e serverAddr tls" "r = Returned" "completed usec e (nat (sint n)) st"
      "sint n < 2 ^ 63 - 1"
  | (cut) a J where "dial e serverAddr tls" "r = Aborted a" "of_nat J + 1 \<le>s n"
      "cut_short usec e J st"
proof (cases "dial e serverAddr tls")
  case False
  with assms no_connection show ?thesis
    by (simp add: pingClientCall_unfold)
next
  case True
  show ?thesis
  proof (cases "snd (ping e 0 (msg0 payload))")
    case (Some er)
    with assms True warm_up_failed show ?thesis
      by (simp add: pingClientCall_unfold)
  next
    case None
    then have start: "completed usec e 0 (warmed_up e payload)"
      by (rule completed_warmed_up)
    from assms True None have "loop usec e 1 n (msg0 payload) (warmed_up e payload) = Some (r, st)"
      by (simp add: pingClientCall_unfold)
    from loop_returns [OF this, unfolded one_plus] obtain c where
      c: "\<forall>d<c. of_nat d + 1 \<le>s n"
      and res: "case iterations usec e 1 c (msg0 payload) (warmed_up e payload) of
              Inl (a, st'') \<Rightarrow> r = Aborted a \<and> st = st''
            | Inr (msg', st'') \<Rightarrow> r = Returned \<and> st = st'' \<and> \<not> of_nat c + 1 \<le>s n"
      by blast
    show ?thesis
    proof (cases "iterations usec e 1 c (msg0 payload) (warmed_up e payload)")
      case (Inl x)
      obtain a st'' where x: "x = (a, st'')"
        by (cases x)
      with res Inl have r: "r = Aborted a" "st = st''"
        by simp_all
      from Inl x have "iterations usec e (of_nat 0 + 1) c (msg0 payload) (warmed_up e payload) = Inl (a, st'')"
        by simp
      from iterations_cut_short [OF start this] obtain J where "J < c" "cut_short usec e J st''"
        by auto
      with c r True cut show ?thesis
        by blast
    next
      case (Inr y)
      obtain m st'' where y: "y = (m, st'')"
        by (cases y)
      with res Inr have r: "r = Returned" "st = st''" "\<not> of_nat c + 1 \<le>s n"
        by simp_all
      from exit_count [OF c r(3)] have cn: "c = nat (sint n)" .
      have "sint n < 2 ^ 63 - 1"
      proof (rule ccontr)
        assume "\<not> sint n < 2 ^ 63 - 1"
        with sint64_le_max [of n] have "sint n = 2 ^ 63 - 1"
          by simp
        with sint64_le_max [of "of_nat c + 1"] r(3) show False
          by (simp add: word_sle_eq)
      qed
      moreover from Inr y have "iterations usec e (of_nat 0 + 1) c (msg0 payload) (warmed_up e payload) = Inr (m, st'')"
        by simp
      from iterations_completed [OF start this] have "completed usec e c st''"
        by simp
      ultimately show ?thesis
        using r True cn returned by simp
    qed
  qed
qed

lemma iteration_Inl_keeps:
  assumes "iteration usec e i msg st = Inl (a, st')"
  shows "rttHistogram st' = rttHistogram st \<and> skewHistogram st' = skewHistogram st \<and>
         infolog st' = infolog st"
proof -
  let ?m = "msg\<lparr>Seq := i, Ts := now e (clk st)\<rparr>"
  obtain a1 b1 where r1: "ping e (length (calls st)) ?m = (a1, b1)"
    by (cases "ping e (length (calls st)) ?m")
  obtain a2 b2 where r2: "ping e (Suc (length (calls st))) ?m = (a2, b2)"
    by (cases "ping e (Suc (length (calls st))) ?m")
  from assms show ?thesis
    unfolding iteration_unfold Let_def
    by (auto simp: r1 r2 split: option.splits)
qed

lemma iterations_all_ok:
  "completed usec e J st \<Longrightarrow> (\<forall>c m. 2 * J < c \<and> c \<le> 2 * (J + k) \<longrightarrow> reply_ok (ping e c m)) \<Longrightarrow>
     \<exists>msg' st'. iterations usec e (of_nat J + 1) k msg st = Inr (msg', st') \<and>
                completed usec e (J + k) st'"
proof (induction k arbitrary: J msg st)
  case 0
  then show ?case by simp
next
  case (Suc k)
  let ?m = "msg\<lparr>Seq := of_nat J + 1, Ts := now e (3 * J)\<rparr>"
  from Suc.prems(2) have "reply_ok (ping e (2 * J + 1) ?m)" and "reply_ok (ping e (2 * J + 2) ?m)"
    by simp_all
  then obtain res1 res2 where "ping e (2 * J + 1) ?m = (Some res1, None)"
    and "ping e (2 * J + 2) ?m = (Some res2, None)"
    by (auto simp: reply_ok_iff)
  from iteration_ok [OF Suc.prems(1) refl this] obtain st1 where
    it: "iteration usec e (of_nat J + 1) msg st = Inr (res2, st1)" and c1: "completed usec e (Suc J) st1"
    by blast
  from Suc.prems(2) have "\<forall>c m. 2 * Suc J < c \<and> c \<le> 2 * (Suc J + k) \<longrightarrow> reply_ok (ping e c m)"
    by simp
  from Suc.IH [OF c1 this, of res2] obtain msg' st' where
    "iterations usec e (of_nat (Suc J) + 1) k res2 st1 = Inr (msg', st')" "completed usec e (Suc J + k) st'"
    by blast
  with it show ?case
    by (simp add: add.commute)
qed

lemma counter_exit:
  assumes "sint (n :: int64) < 2 ^ 63 - 1"
  shows "\<not> of_nat (nat (sint n)) + 1 \<le>s n"
proof -
  from assms have "sint (of_nat (nat (sint n)) + 1 :: int64) = int (nat (sint n)) + 1"
    by (intro sint64_counter) simp
  then show ?thesis
    by (simp add: word_sle_eq)
qed

lemma run_prefix:
  assumes "dial e serverAddr tls" and "snd (ping e 0 (msg0 payload)) = None"
    and "\<forall>c m. 0 < c \<and> c \<le> 2 * J \<longrightarrow> reply_ok (ping e c m)"
  shows "\<exists>m' stJ. completed usec e J stJ \<and>
           (\<forall>n. J = 0 \<or> int J \<le> sint n \<longrightarrow>
              pingClientCall usec e serverAddr tls n payload = loop usec e (of_nat J + 1) n m' stJ)"
proof -
  from assms(2) have start: "completed usec e 0 (warmed_up e payload)"
    by (rule completed_warmed_up)
  from assms(3) have "\<forall>c m. 2 * 0 < c \<and> c \<le> 2 * (0 + J) \<longrightarrow> reply_ok (ping e c m)"
    by simp
  from iterations_all_ok [OF start this, of "msg0 payload"] obtain m' stJ where
    its: "iterations usec e 1 J (msg0 payload) (warmed_up e payload) = Inr (m', stJ)"
    and compl: "completed usec e J stJ"
    by auto
  have "pingClientCall usec e serverAddr tls n payload = loop usec e (of_nat J + 1) n m' stJ"
    if n: "J = 0 \<or> int J \<le> sint n" for n
  proof -
    have "\<forall>d<J. 1 + of_nat d \<le>s n"
    proof (intro allI impI)
      fix d assume "d < J"
      with n have "int d < sint n"
        by auto
      then show "1 + of_nat d \<le>s n"
        unfolding one_plus by (rule counter_le)
    qed
    from loop_unroll [OF this, of usec e "msg0 payload" "warmed_up e payload"] its
    have "loop usec e 1 n (msg0 payload) (warmed_up e payload) = loop usec e (1 + of_nat J) n m' stJ"
      by simp
    with assms(1,2) show ?thesis
      by (simp add: pingClientCall_unfold add.commute)
  qed
  with compl show ?thesis
    by blast
qed

lemma run_returns:
  assumes "dial e serverAddr tls" and "snd (ping e 0 (msg0 payload)) = None"
    and "\<forall>c m. 0 < c \<and> c \<le> 2 * nat (sint n) \<longrightarrow> reply_ok (ping e c m)"
    and "sint n < 2 ^ 63 - 1"
  shows "\<exists>st. pingClientCall usec e serverAddr tls n payload = Some (Returned, st) \<and>
           completed usec e (nat (sint n)) st"
proof -
  from run_prefix [OF assms(1,2,3)] obtain m' stJ where
    compl: "completed usec e (nat (sint n)) stJ"
    and "nat (sint n) = 0 \<or> int (nat (sint n)) \<le> sint n \<Longrightarrow>
         pingClientCall usec e serverAddr tls n payload = loop usec e (of_nat (nat (sint n)) + 1) n m' stJ"
    by blast
  moreover have "nat (sint n) = 0 \<or> int (nat (sint n)) \<le> sint n"
    by auto
  ultimately have "pingClientCall usec e serverAddr tls n payload =
      loop usec e (of_nat (nat (sint n)) + 1) n m' stJ"
    by simp
  also have "\<dots> = Some (Returned, stJ)"
    using counter_exit [OF assms(4)] by (subst loop.simps) simp
  finally show ?thesis
    using compl by blast
qed

lemma run_cut:
  assumes "dial e serverAddr tls" and "snd (ping e 0 (msg0 payload)) = None"
    and "\<forall>c m. 0 < c \<and> c \<le> 2 * J \<longrightarrow> reply_ok (ping e c m)"
    and "int J < sint n"
    and "(\<forall>m. \<not> reply_ok (ping e (2 * J + 1) m)) \<or> (\<forall>m. \<not> reply_ok (ping e (2 * J + 2) m))"
  shows "\<exists>a st stJ. pingClientCall usec e serverAddr tls n payload = Some (Aborted a, st) \<and>
           cut_short usec e J st \<and>
           pingClientCall usec e serverAddr tls (of_nat J) payload = Some (Returned, stJ) \<and>
           completed usec e J stJ \<and>
           rttHistogram st = rttHistogram stJ \<and> skewHistogram st = skewHistogram stJ"
proof -
  from run_prefix [OF assms(1,2,3)] obtain m' stJ where
    compl: "completed usec e J stJ"
    and run: "\<And>n. J = 0 \<or> int J \<le> sint n \<Longrightarrow>
         pingClientCall usec e serverAddr tls n payload = loop usec e (of_nat J + 1) n m' stJ"
    by blast
  let ?m = "m'\<lparr>Seq := of_nat J + 1, Ts := now e (3 * J)\<rparr>"
  from assms(5) have "\<not> reply_ok (ping e (2 * J + 1) ?m) \<or> \<not> reply_ok (ping e (2 * J + 2) ?m)"
    by blast
  from iteration_fails [OF compl refl this] obtain a st where
    it: "iteration usec e (of_nat J + 1) m' stJ = Inl (a, st)" and cut: "cut_short usec e J st"
    by blast
  from assms(4) have "pingClientCall usec e serverAddr tls n payload = loop usec e (of_nat J + 1) n m' stJ"
    by (intro run) simp
  also have "\<dots> = Some (Aborted a, st)"
    using counter_le [OF assms(4)] it by (subst loop.simps) simp
  finally have 1: "pingClientCall usec e serverAddr tls n payload = Some (Aborted a, st)" .
  from assms(4) sint64_le_max [of n] have sJ: "sint (of_nat J :: int64) = int J"
    using sint64_of_int [of "int J"] by simp
  then have "pingClientCall usec e serverAddr tls (of_nat J) payload =
      loop usec e (of_nat J + 1) (of_nat J) m' stJ"
    by (intro run) simp
  also have "\<dots> = Some (Returned, stJ)"
  proof -
    from assms(4) sint64_le_max [of n] have "sint (of_nat J + 1 :: int64) = int J + 1"
      by (intro sint64_counter) simp
    with sJ have "\<not> (of_nat J + 1 :: int64) \<le>s of_nat J"
      by (simp add: word_sle_eq)
    then show ?thesis
      by (subst loop.simps) simp
  qed
  finally have 2: "pingClientCall usec e serverAddr tls (of_nat J) payload = Some (Returned, stJ)" .
  from iteration_Inl_keeps [OF it] 1 2 cut compl show ?thesis
    by blast
qed

subsection \<open>Evaluating the worked examples\<close>

lemma sim_env_simps:
  "dial (sim_env t0 L D) a t = True"
  "now (sim_env t0 L D) k = t0 + of_nat (k div 3) * (4 * L) + of_nat (k mod 3) * (2 * L)"
  "ping (sim_env t0 L D) c m = (Some (m\<lparr>Ts := t0 + of_nat (2 * c) * L - L + D\<rparr>), None)"
  by (simp_all add: sim_env_def Ping_def)

lemma failing_at_simps:
  "dial (failing_at k e) = dial e"
  "now (failing_at k e) = now e"
  "ping (failing_at k e) c m = (if c = k then (None, Some ''unavailable'') else ping e c m)"
  by (simp_all add: failing_at_def)

lemma ahead_env_simps:
  "dial ahead_env a t = True"
  "now ahead_env k = - 9223372036854775808 + of_nat k * 1000"
  "ping ahead_env c m = (Some (m\<lparr>Ts := of_nat c * 1000 - 500\<rparr>), None)"
  by (simp_all add: ahead_env_def)

lemmas trace_eval = final_def t1a_def t2a_def t3a_def t1b_def t2b_def reply_Ts_def

lemma ahead_run:
  "pingClientCall sint ahead_env ''host'' False 1 ''x'' =
     Some (Returned,
       \<lparr>clk = 3,
        calls =
          [(\<lparr>Seq = 0, Ts = 0, Payload = ''x''\<rparr>,
            Some \<lparr>Seq = 0, Ts = - 500, Payload = ''x''\<rparr>, None),
           (\<lparr>Seq = 1, Ts = - 9223372036854775808, Payload = ''x''\<rparr>,
            Some \<lparr>Seq = 1, Ts = 500, Payload = ''x''\<rparr>, None),
           (\<lparr>Seq = 1, Ts = - 9223372036854775808, Payload = ''x''\<rparr>,
            Some \<lparr>Seq = 1, Ts = 1500, Payload = ''x''\<rparr>, None)],
        rttHistogram = [1000, 1000, 1000],
        skewHistogram = [- 9223372036854775808],
        infolog = [(1000, 1000, 1000, 1000, 9223372036854775808)]\<rparr>)"
  by (simp add: pingClientCall_unfold loop.simps iteration_unfold warmed_up_def init_state_def
      msg0_def Let_def int64_div_def signed_divide_int_def word_sle_eq ahead_env_simps)

lemma jump_env_simps:
  "dial jump_env a t = True"
  "now jump_env k = 1000000 + of_nat k * 1000000"
  "ping jump_env c m = (Some (m\<lparr>Ts := (if c \<le> 1 then - 5000000000000000000
                                           else 5000000000000000000)\<rparr>), None)"
  by (simp_all add: jump_env_def)

lemma jump_run:
  "pingClientCall sint jump_env ''host'' False 1 ''x'' =
     Some (Returned,
       \<lparr>clk = 3,
        calls =
          [(\<lparr>Seq = 0, Ts = 0, Payload = ''x''\<rparr>,
            Some \<lparr>Seq = 0, Ts = - 5000000000000000000, Payload = ''x''\<rparr>, None),
           (\<lparr>Seq = 1, Ts = 1000000, Payload = ''x''\<rparr>,
            Some \<lparr>Seq = 1, Ts = - 5000000000000000000, Payload = ''x''\<rparr>, None),
           (\<lparr>Seq = 1, Ts = 1000000, Payload = ''x''\<rparr>,
            Some \<lparr>Seq = 1, Ts = 5000000000000000000, Payload = ''x''\<rparr>, None)],
        rttHistogram = [1000000, 1000000, - 8446744073709551616],
        skewHistogram = [9223372036852775808],
        infolog =
          [(- 2815581357902517205, 1000000, 10000000000000000000, 1000000,
            - 9223372036856775808)]\<rparr>)"
  by (simp add: pingClientCall_unfold loop.simps iteration_unfold warmed_up_def init_state_def
      msg0_def Let_def int64_div_def signed_divide_int_def word_sle_eq jump_env_simps)



lemma garbling_simps:
  "dial (garbling e) = dial e"
  "now (garbling e) = now e"
  "ping (garbling e) c m =
     (case ping e c m of
        (Some r, er) \<Rightarrow> (Some (r\<lparr>Seq := 0, Payload := ''garbled''\<rparr>), er)
      | (None, er) \<Rightarrow> (None, er))"
  by (simp_all add: garbling_def)

lemmas run_eval =
  pingClientCall_unfold loop.simps iteration_unfold warmed_up_def init_state_def msg0_def Let_def
  int64_div_def signed_divide_int_def word_sle_eq whole_usec_def sim_env_simps failing_at_simps

lemma replies_ok_sim: "reply_ok (ping (sim_env t0 L D) c m)"
  by (simp add: sim_env_simps reply_ok_def)

subsection \<open>Sample counts\<close>

lemma length_rtt_samples:
  "length (concat (map (rtt_samples usec e cs) [0..<J])) = 3 * J"
  by (induction J) (simp_all add: rtt_samples_def)

lemma completed_lengths:
  assumes "completed usec e J st"
  shows "length (rttHistogram st) = 3 * J" and "length (skewHistogram st) = J"
  using assms by (simp_all add: completed_def samples_ok_def length_rtt_samples)

lemma cut_short_lengths:
  assumes "cut_short usec e J st"
  shows "length (rttHistogram st) = 3 * J" and "length (skewHistogram st) = J"
  using assms by (simp_all add: cut_short_def samples_ok_def length_rtt_samples)

subsection \<open>The samples of any run, and the skew arithmetic\<close>

lemma run_sampled:
  assumes "pingClientCall usec e serverAddr tls n payload = Some (r, st)"
  shows "samples_ok usec e (length (skewHistogram st)) st"
proof -
  have "\<exists>J. samples_ok usec e J st"
    using assms
  proof (cases rule: pingClientCall_cases)
    case no_connection
    then have "samples_ok usec e 0 st"
      by (simp add: samples_ok_def init_state_def)
    then show ?thesis ..
  next
    case (warm_up_failed er)
    then have "samples_ok usec e 0 st"
      by (simp add: samples_ok_def warmed_up_def init_state_def)
    then show ?thesis ..
  next
    case returned
    then show ?thesis
      by (auto simp: completed_def)
  next
    case (cut a J)
    then show ?thesis
      by (auto simp: cut_short_def)
  qed
  then obtain J where J: "samples_ok usec e J st" ..
  then have "length (skewHistogram st) = J"
    by (simp add: samples_ok_def)
  with J show ?thesis
    by simp
qed

lemma sdiv_two: "(2 * L) sdiv 2 = (L :: int)"
proof -
  have "sgn (2 * L) = sgn L" and "\<bar>2 * L\<bar> div 2 = \<bar>L\<bar>"
    by (simp_all add: sgn_mult abs_mult)
  then show ?thesis
    by (simp add: signed_divide_int_def mult_sgn_abs)
qed

lemma skew_formula:
  assumes "sint rb1 = sint ra1 + L + sint D" and "sint ra2 = sint ra1 + 2 * L"
    and "sint rb2 = sint ra1 + 3 * L + sint D" and "- (2 ^ 62) \<le> L" and "L < 2 ^ 62"
  shows "rb1 + int64_div (rb2 - rb1) 2 - ra2 = (D :: int64)"
proof -
  have "rb2 - rb1 = word_of_int (sint rb2 - sint rb1)"
    by simp
  also from assms(1,3) have "sint rb2 - sint rb1 = 2 * L"
    by simp
  finally have rtR: "rb2 - rb1 = word_of_int (2 * L)" .
  from assms(4,5) have "sint (word_of_int (2 * L) :: int64) = 2 * L"
    by (intro sint64_of_int) simp_all
  with rtR have "int64_div (rb2 - rb1) 2 = word_of_int L"
    by (simp add: int64_div_def sdiv_two)
  then have "rb1 + int64_div (rb2 - rb1) 2 - ra2 = word_of_int (sint rb1 + L - sint ra2)"
    by simp
  also from assms(1,2) have "sint rb1 + L - sint ra2 = sint D"
    by simp
  finally show ?thesis
    by simp
qed

lemma latency_bound:
  assumes "sint (c :: int64) = sint (a :: int64) + 4 * L"
  shows "- (2 ^ 62) \<le> L \<and> L < 2 ^ 62"
proof -
  from sint_ge [of a] sint_lt [of a] sint_ge [of c] sint_lt [of c]
  have "- (2 ^ 63) \<le> sint a" "sint a < 2 ^ 63" "- (2 ^ 63) \<le> sint c" "sint c < 2 ^ 63"
    by simp_all
  with assms show ?thesis
    by simp
qed

lemma diff_nonneg:
  assumes "sint a \<le> sint b" and "sint b - sint a < 2 ^ 63"
  shows "0 \<le>s (b - a :: int64)"
proof -
  from assms have "signed_take_bit 63 (sint b - sint a) = sint b - sint a"
    by (intro signed_take_bit_int_eq_self) simp_all
  then have "sint (b - a) = sint b - sint a"
    by (simp add: sint_word_diff)
  with assms(1) show ?thesis
    by (simp add: word_sle_eq)
qed

subsection \<open>Two runs with the same readings\<close>

lemma stamp_reply_ok: "stamp c = stamp c' \<Longrightarrow> reply_ok (snd c) = reply_ok (snd c')"
  by (cases "fst (snd c)"; cases "fst (snd c')") (auto simp: stamp_def reply_ok_def)

lemma stamp_reply_Ts:
  assumes "map stamp cs = map stamp cs'" and "c < length cs"
  shows "reply_Ts cs c = reply_Ts cs' c"
proof -
  from assms have "c < length cs'"
    by (metis length_map)
  with assms have "stamp (cs ! c) = stamp (cs' ! c)"
    by (metis nth_map)
  then show ?thesis
    by (cases "fst (snd (cs ! c))"; cases "fst (snd (cs' ! c))") (auto simp: stamp_def reply_Ts_def)
qed

text \<open>What the end of a run says about the number of sampled iterations.\<close>

lemma run_shape:
  assumes "pingClientCall usec e serverAddr tls n payload = Some (r, st)"
  obtains (short) "length (calls st) \<le> 1" "length (skewHistogram st) = 0"
  | (whole) J where "length (skewHistogram st) = J" "length (calls st) = 2 * J + 1" "clk st = 3 * J"
      "\<forall>c<length (calls st). 0 < c \<longrightarrow> reply_ok (snd (calls st ! c))"
  | (part) J where "length (skewHistogram st) = J"
      "length (calls st) = 2 * J + 2 \<or> length (calls st) = 2 * J + 3" "3 * J \<le> clk st"
      "\<not> reply_ok (snd (calls st ! (length (calls st) - 1)))"
  using assms
proof (cases rule: pingClientCall_cases)
  case no_connection
  then show ?thesis
    by (intro short) (simp_all add: init_state_def)
next
  case (warm_up_failed er)
  then show ?thesis
    by (intro short) (simp_all add: warmed_up_def init_state_def)
next
  case returned
  let ?J = "nat (sint n)"
  from returned(3) have "length (skewHistogram st) = ?J" "length (calls st) = 2 * ?J + 1" "clk st = 3 * ?J"
    "\<forall>c<length (calls st). 0 < c \<longrightarrow> reply_ok (snd (calls st ! c))"
    using completed_lengths(2) [OF returned(3)] by (simp_all add: completed_def replies_ok_def)
  then show ?thesis
    by (rule whole)
next
  case (cut a J)
  from cut(4) have ne: "calls st \<noteq> []"
    by (auto simp: cut_short_def)
  from cut(4) have "length (skewHistogram st) = J"
    "length (calls st) = 2 * J + 2 \<or> length (calls st) = 2 * J + 3" "3 * J \<le> clk st"
    using cut_short_lengths(2) [OF cut(4)] by (auto simp: cut_short_def)
  moreover from cut(4) ne have "\<not> reply_ok (snd (calls st ! (length (calls st) - 1)))"
    by (simp add: cut_short_def last_conv_nth)
  ultimately show ?thesis
    by (rule part)
qed

lemma sampled_le:
  assumes "pingClientCall usec e1 serverAddr tls n payload = Some (r1, st1)"
    and "pingClientCall usec e2 serverAddr' tls' n' payload' = Some (r2, st2)"
    and "map stamp (calls st1) = map stamp (calls st2)"
  shows "length (skewHistogram st1) \<le> length (skewHistogram st2)"
proof -
  from assms(3) have "length (map stamp (calls st1)) = length (map stamp (calls st2))"
    by (rule arg_cong)
  then have len: "length (calls st1) = length (calls st2)"
    by simp
  from assms(1) show ?thesis
  proof (cases rule: run_shape)
    case short
    then show ?thesis by simp
  next
    case (whole J1)
    note w = whole
    from assms(2) show ?thesis
    proof (cases rule: run_shape)
      case short
      with w(1,2) len show ?thesis by linarith
    next
      case (whole J2)
      with w(1,2) len show ?thesis by linarith
    next
      case (part J2)
      show ?thesis
      proof (rule ccontr)
        assume "\<not> length (skewHistogram st1) \<le> length (skewHistogram st2)"
        with w(1,2) part(1,2) len have pos: "0 < length (calls st1) - 1"
          and inside: "length (calls st1) - 1 < length (calls st1)"
          by linarith+
        with w(4) have "reply_ok (snd (calls st1 ! (length (calls st1) - 1)))"
          by blast
        moreover from inside have "map stamp (calls st1) ! (length (calls st1) - 1) =
            stamp (calls st1 ! (length (calls st1) - 1))"
          by (rule nth_map)
        moreover from inside len have "map stamp (calls st2) ! (length (calls st1) - 1) =
            stamp (calls st2 ! (length (calls st1) - 1))"
          by (intro nth_map) simp
        ultimately have "reply_ok (snd (calls st2 ! (length (calls st1) - 1)))"
          using assms(3) stamp_reply_ok [of "calls st1 ! (length (calls st1) - 1)"
            "calls st2 ! (length (calls st1) - 1)"] by (simp only:)
        with part(4) len show False
          by (simp only:)
      qed
    qed
  next
    case (part J1)
    note p = part
    from assms(2) show ?thesis
    proof (cases rule: run_shape)
      case short
      with p(1,2) len show ?thesis by linarith
    next
      case (whole J2)
      with p(1,2) len show ?thesis by linarith
    next
      case (part J2)
      with p(1,2) len show ?thesis by linarith
    qed
  qed
qed

lemma sampled_inside:
  assumes "pingClientCall usec e serverAddr tls n payload = Some (r, st)"
    and "j < length (skewHistogram st)"
  shows "3 * j + 2 < clk st \<and> 2 * j + 2 < length (calls st)"
  using assms(1)
proof (cases rule: run_shape)
  case short
  with assms(2) show ?thesis by linarith
next
  case (whole J)
  with assms(2) show ?thesis by linarith
next
  case (part J)
  with assms(2) show ?thesis by linarith
qed

section \<open>The claims\<close>

text \<open>
  Claim C1, as amended. In a run whose readings fit a constant one-way latency \<open>L\<close> in
  both directions and a constant clock offset \<open>D\<close> of the responder, that is
  \<open>t1b = t1a + L + D\<close>, \<open>t2a = t1a + 2L\<close>, \<open>t2b = t1a + 3L + D\<close> and
  \<open>t3a = t1a + 4L\<close> in every iteration that recorded a sample (equations between the
  readings as integers), every skew sample is the conversion of \<open>D\<close>, whatever \<open>L\<close>
  is, provided \<open>D\<close> is a value of an \<^verbatim>\<open>int64\<close>: \<open>-2\<^sup>6\<^sup>3 \<le> D < 2\<^sup>6\<^sup>3\<close>. With
  \<open>D = 0\<close> every skew sample is the conversion of 0. No bound on \<open>L\<close> is needed:
  the readings \<open>t1a\<close> and \<open>t3a = t1a + 4L\<close> of one clock bound it.
\<close>

theorem skew_sample_is_offset:
  assumes "pingClientCall usec e serverAddr tls n payload = Some (r, st)"
    and "- (2 ^ 63) \<le> D" and "D < 2 ^ 63"
    and "\<forall>j<length (skewHistogram st).
           sint (t1b (calls st) j) = sint (t1a e j) + L + D \<and>
           sint (t2a e j) = sint (t1a e j) + 2 * L \<and>
           sint (t2b (calls st) j) = sint (t1a e j) + 3 * L + D \<and>
           sint (t3a e j) = sint (t1a e j) + 4 * L"
  shows "skewHistogram st = replicate (length (skewHistogram st)) (usec (word_of_int D)) \<and>
         sint (word_of_int D :: int64) = D"
proof -
  let ?J = "length (skewHistogram st)"
  from assms(2,3) have D: "sint (word_of_int D :: int64) = D"
    by (rule sint64_of_int)
  from run_sampled [OF assms(1)] have "skewHistogram st = map (skew_sample usec e (calls st)) [0..<?J]"
    by (simp add: samples_ok_def)
  also have "\<dots> = map (\<lambda>j. usec (word_of_int D)) [0..<?J]"
  proof (rule map_cong [OF refl])
    fix j assume "j \<in> set [0..<?J]"
    then have "j < ?J"
      by simp
    with assms(4) have legs: "sint (t1b (calls st) j) = sint (t1a e j) + L + sint (word_of_int D :: int64)"
      "sint (t2a e j) = sint (t1a e j) + 2 * L"
      "sint (t2b (calls st) j) = sint (t1a e j) + 3 * L + sint (word_of_int D :: int64)"
      and fourth: "sint (t3a e j) = sint (t1a e j) + 4 * L"
      by (simp_all add: D)
    from latency_bound [OF fourth] have "- (2 ^ 62) \<le> L" and "L < 2 ^ 62"
      by simp_all
    with legs have "t1b (calls st) j + int64_div (t2b (calls st) j - t1b (calls st) j) 2 - t2a e j =
        word_of_int D"
      by (intro skew_formula)
    then show "skew_sample usec e (calls st) j = usec (word_of_int D)"
      by (simp add: skew_sample_def)
  qed
  also have "\<dots> = replicate ?J (usec (word_of_int D))"
    by (simp add: map_replicate_const)
  finally show ?thesis
    using D by simp
qed

text \<open>
  The simulated network with 5 ms each way and the responder's clock 250 microseconds
  ahead: both skew samples of a run of 2 iterations are 250 microseconds.
\<close>

theorem skew_sample_is_offset_witness:
  "pingClientCall whole_usec (sim_env 1000 5000000 250000) ''host'' False 2 ''x'' =
     Some (Returned, final (pingClientCall whole_usec (sim_env 1000 5000000 250000) ''host'' False 2 ''x'')) \<and>
   - (2 ^ 63) \<le> (250000 :: int) \<and> (250000 :: int) < 2 ^ 63 \<and>
   sint (t1b (calls (final (pingClientCall whole_usec (sim_env 1000 5000000 250000) ''host'' False 2 ''x''))) 0) =
     sint (t1a (sim_env 1000 5000000 250000) 0) + 5000000 + 250000 \<and>
   sint (t2a (sim_env 1000 5000000 250000) 0) = sint (t1a (sim_env 1000 5000000 250000) 0) + 2 * 5000000 \<and>
   sint (t2b (calls (final (pingClientCall whole_usec (sim_env 1000 5000000 250000) ''host'' False 2 ''x''))) 0) =
     sint (t1a (sim_env 1000 5000000 250000) 0) + 3 * 5000000 + 250000 \<and>
   sint (t3a (sim_env 1000 5000000 250000) 0) = sint (t1a (sim_env 1000 5000000 250000) 0) + 4 * 5000000 \<and>
   sint (t1b (calls (final (pingClientCall whole_usec (sim_env 1000 5000000 250000) ''host'' False 2 ''x''))) 1) =
     sint (t1a (sim_env 1000 5000000 250000) 1) + 5000000 + 250000 \<and>
   sint (t2a (sim_env 1000 5000000 250000) 1) = sint (t1a (sim_env 1000 5000000 250000) 1) + 2 * 5000000 \<and>
   sint (t2b (calls (final (pingClientCall whole_usec (sim_env 1000 5000000 250000) ''host'' False 2 ''x''))) 1) =
     sint (t1a (sim_env 1000 5000000 250000) 1) + 3 * 5000000 + 250000 \<and>
   sint (t3a (sim_env 1000 5000000 250000) 1) = sint (t1a (sim_env 1000 5000000 250000) 1) + 4 * 5000000 \<and>
   skewHistogram (final (pingClientCall whole_usec (sim_env 1000 5000000 250000) ''host'' False 2 ''x'')) =
     replicate 2 (whole_usec (word_of_int 250000)) \<and>
   whole_usec (word_of_int 250000) = 250"
proof -
  let ?e = "sim_env 1000 5000000 250000"
  let ?run = "pingClientCall whole_usec ?e ''host'' False 2 ''x''"
  have "\<exists>st. ?run = Some (Returned, st)"
    by (simp add: run_eval)
  then have run: "?run = Some (Returned, final ?run)"
    by (auto simp: final_def)
  have D: "- (2 ^ 63) \<le> (250000 :: int)" "(250000 :: int) < 2 ^ 63"
    by simp_all
  have it0: "sint (t1b (calls (final ?run)) 0) = sint (t1a ?e 0) + 5000000 + 250000"
    "sint (t2a ?e 0) = sint (t1a ?e 0) + 2 * 5000000"
    "sint (t2b (calls (final ?run)) 0) = sint (t1a ?e 0) + 3 * 5000000 + 250000"
    "sint (t3a ?e 0) = sint (t1a ?e 0) + 4 * 5000000"
    by (simp_all add: run_eval trace_eval)
  have it1: "sint (t1b (calls (final ?run)) 1) = sint (t1a ?e 1) + 5000000 + 250000"
    "sint (t2a ?e 1) = sint (t1a ?e 1) + 2 * 5000000"
    "sint (t2b (calls (final ?run)) 1) = sint (t1a ?e 1) + 3 * 5000000 + 250000"
    "sint (t3a ?e 1) = sint (t1a ?e 1) + 4 * 5000000"
    by (simp_all add: run_eval trace_eval)
  have len: "length (skewHistogram (final ?run)) = 2"
    by (simp add: run_eval final_def)
  have all: "\<forall>j<length (skewHistogram (final ?run)).
           sint (t1b (calls (final ?run)) j) = sint (t1a ?e j) + 5000000 + 250000 \<and>
           sint (t2a ?e j) = sint (t1a ?e j) + 2 * 5000000 \<and>
           sint (t2b (calls (final ?run)) j) = sint (t1a ?e j) + 3 * 5000000 + 250000 \<and>
           sint (t3a ?e j) = sint (t1a ?e j) + 4 * 5000000"
    unfolding len
  proof (intro allI impI)
    fix j :: nat assume "j < 2"
    then consider "j = 0" | "j = 1"
      by linarith
    then show "sint (t1b (calls (final ?run)) j) = sint (t1a ?e j) + 5000000 + 250000 \<and>
           sint (t2a ?e j) = sint (t1a ?e j) + 2 * 5000000 \<and>
           sint (t2b (calls (final ?run)) j) = sint (t1a ?e j) + 3 * 5000000 + 250000 \<and>
           sint (t3a ?e j) = sint (t1a ?e j) + 4 * 5000000"
      using it0 it1 by cases (simp_all only: simp_thms)
  qed
  from skew_sample_is_offset [OF run D all] len
  have "skewHistogram (final ?run) = replicate 2 (whole_usec (word_of_int 250000))"
    by simp
  moreover have "whole_usec (word_of_int 250000) = 250"
    by (simp add: whole_usec_def signed_divide_int_def)
  ultimately show ?thesis
    using run D it0 it1 by blast
qed

text \<open>
  Without the bound on \<open>D\<close> the claim fails. With the responder's clock \<open>2\<^sup>6\<^sup>3\<close>
  nanoseconds ahead and 500 nanoseconds each way, all four equations hold between the
  readings, and the skew sample (kept in nanoseconds here) is \<open>2\<^sup>6\<^sup>3\<close> wrapped around,
  \<open>-2\<^sup>6\<^sup>3\<close>, not \<open>D\<close>.
\<close>

theorem skew_sample_is_offset_counterexample:
  "pingClientCall sint ahead_env ''host'' False 1 ''x'' =
     Some (Returned, final (pingClientCall sint ahead_env ''host'' False 1 ''x'')) \<and>
   sint (t1b (calls (final (pingClientCall sint ahead_env ''host'' False 1 ''x''))) 0) =
     sint (t1a ahead_env 0) + 500 + 9223372036854775808 \<and>
   sint (t2a ahead_env 0) = sint (t1a ahead_env 0) + 2 * 500 \<and>
   sint (t2b (calls (final (pingClientCall sint ahead_env ''host'' False 1 ''x''))) 0) =
     sint (t1a ahead_env 0) + 3 * 500 + 9223372036854775808 \<and>
   sint (t3a ahead_env 0) = sint (t1a ahead_env 0) + 4 * 500 \<and>
   skewHistogram (final (pingClientCall sint ahead_env ''host'' False 1 ''x'')) =
     [- 9223372036854775808] \<and>
   skewHistogram (final (pingClientCall sint ahead_env ''host'' False 1 ''x'')) \<noteq>
     [9223372036854775808]"
proof -
  let ?run = "pingClientCall sint ahead_env ''host'' False 1 ''x''"
  have 1: "?run = Some (Returned, final ?run)"
    by (simp add: ahead_run final_def)
  have 2: "sint (t1b (calls (final ?run)) 0) = sint (t1a ahead_env 0) + 500 + 9223372036854775808"
    by (simp add: ahead_run trace_eval ahead_env_simps)
  have 3: "sint (t2a ahead_env 0) = sint (t1a ahead_env 0) + 2 * 500"
    by (simp add: trace_eval ahead_env_simps)
  have 4: "sint (t2b (calls (final ?run)) 0) = sint (t1a ahead_env 0) + 3 * 500 + 9223372036854775808"
    by (simp add: ahead_run trace_eval ahead_env_simps)
  have 5: "sint (t3a ahead_env 0) = sint (t1a ahead_env 0) + 4 * 500"
    by (simp add: trace_eval ahead_env_simps)
  have 6: "skewHistogram (final ?run) = [- 9223372036854775808]"
    by (simp add: ahead_run final_def)
  then have 7: "skewHistogram (final ?run) \<noteq> [9223372036854775808]"
    by simp
  from 1 2 3 4 5 6 7 show ?thesis
    by blast
qed

text \<open>
  Claim C2. For every request, the responder returns a message and no error; the
  message's timestamp is the responder's clock reading taken while the call is handled,
  whatever timestamp came in (the answer does not depend on it), its sequence number and
  payload are those of the request, and every further field is unchanged.
\<close>

theorem Ping_overwrites_timestamp_only:
  "\<exists>out. Ping t inp = (Some out, None) \<and> Ts out = t \<and>
     Seq out = Seq inp \<and> Payload out = Payload inp \<and>
     PingMessage.more out = PingMessage.more inp \<and>
     Ping t (inp\<lparr>Ts := t'\<rparr>) = Ping t inp"
  by (simp add: Ping_def)

text \<open>
  Claim C3. Let the connection be made, the warm-up call return no error and every timed
  call before iteration \<open>k\<close> go well, with \<open>1 \<le> k \<le> n\<close>, and let the first or the
  second timed call of iteration \<open>k\<close> fail. Then the run is cut short, and what it has
  recorded by then is what the run of \<open>k - 1\<close> iterations records: \<open>3 (k - 1)\<close>
  round-trip samples and \<open>k - 1\<close> skew samples, none from iteration \<open>k\<close>. The failed
  call is the last call made: no call follows it, so no later iteration executes.
\<close>

theorem failed_call_aborts_run:
  assumes "dial e serverAddr tls" and "snd (ping e 0 (msg0 payload)) = None"
    and "1 \<le> k" and "int k \<le> sint n"
    and "\<forall>c m. 0 < c \<and> c < 2 * k - 1 \<longrightarrow> reply_ok (ping e c m)"
    and "(\<forall>m. \<not> reply_ok (ping e (2 * k - 1) m)) \<or> (\<forall>m. \<not> reply_ok (ping e (2 * k) m))"
  shows "\<exists>a st st'.
           pingClientCall usec e serverAddr tls n payload = Some (Aborted a, st) \<and>
           pingClientCall usec e serverAddr tls (of_nat (k - 1)) payload = Some (Returned, st') \<and>
           rttHistogram st = rttHistogram st' \<and> skewHistogram st = skewHistogram st' \<and>
           length (rttHistogram st) = 3 * (k - 1) \<and> length (skewHistogram st) = k - 1 \<and>
           length (calls st) \<le> 2 * k + 1 \<and> \<not> reply_ok (snd (last (calls st)))"
proof -
  from assms(3) have k: "2 * (k - 1) + 1 = 2 * k - 1" "2 * (k - 1) + 2 = 2 * k"
    by simp_all
  from assms(5) have "\<forall>c m. 0 < c \<and> c \<le> 2 * (k - 1) \<longrightarrow> reply_ok (ping e c m)"
    by auto
  moreover from assms(3,4) have "int (k - 1) < sint n"
    by simp
  moreover from assms(6) have "(\<forall>m. \<not> reply_ok (ping e (2 * (k - 1) + 1) m)) \<or>
      (\<forall>m. \<not> reply_ok (ping e (2 * (k - 1) + 2) m))"
    unfolding k .
  ultimately obtain a st st' where
    run: "pingClientCall usec e serverAddr tls n payload = Some (Aborted a, st)"
    and cut: "cut_short usec e (k - 1) st"
    and pre: "pingClientCall usec e serverAddr tls (of_nat (k - 1)) payload = Some (Returned, st')"
    and same: "rttHistogram st = rttHistogram st'" "skewHistogram st = skewHistogram st'"
    using run_cut [OF assms(1,2), of "k - 1" n usec] by blast
  from cut assms(3) have "length (calls st) \<le> 2 * k + 1" and "\<not> reply_ok (snd (last (calls st)))"
    by (auto simp: cut_short_def)
  with run pre same cut_short_lengths [OF cut] show ?thesis
    by blast
qed

text \<open>
  The scenario of the specification: of 5 iterations, the first call of iteration 2 (call
  3 of the run) fails. The run ends in the fatal log of the first error check with the
  samples of one iteration, 3 round-trip samples and 1 skew sample, after 4 calls.
\<close>

theorem failed_call_aborts_run_witness:
  "dial (failing_at 3 (sim_env 1000 5000000 0)) ''host'' False \<and>
   snd (ping (failing_at 3 (sim_env 1000 5000000 0)) 0 (msg0 ''x'')) = None \<and>
   (1 :: nat) \<le> 2 \<and> int 2 \<le> sint (5 :: int64) \<and>
   (\<forall>m. reply_ok (ping (failing_at 3 (sim_env 1000 5000000 0)) 1 m)) \<and>
   (\<forall>m. reply_ok (ping (failing_at 3 (sim_env 1000 5000000 0)) 2 m)) \<and>
   (\<forall>m. \<not> reply_ok (ping (failing_at 3 (sim_env 1000 5000000 0)) (2 * 2 - 1) m)) \<and>
   pingClientCall whole_usec (failing_at 3 (sim_env 1000 5000000 0)) ''host'' False 5 ''x'' =
     Some (Aborted (Fatalf ''grpc error from Ping1 %v'' ''unavailable''),
           final (pingClientCall whole_usec (failing_at 3 (sim_env 1000 5000000 0)) ''host'' False 5 ''x'')) \<and>
   rttHistogram (final (pingClientCall whole_usec (failing_at 3 (sim_env 1000 5000000 0)) ''host'' False 5 ''x'')) =
     [10000, 10000, 10000] \<and>
   skewHistogram (final (pingClientCall whole_usec (failing_at 3 (sim_env 1000 5000000 0)) ''host'' False 5 ''x'')) = [0] \<and>
   rttHistogram (final (pingClientCall whole_usec (failing_at 3 (sim_env 1000 5000000 0)) ''host'' False (of_nat (2 - 1)) ''x'')) =
     [10000, 10000, 10000] \<and>
   length (calls (final (pingClientCall whole_usec (failing_at 3 (sim_env 1000 5000000 0)) ''host'' False 5 ''x''))) = 4"
proof -
  let ?e = "failing_at 3 (sim_env 1000 5000000 0)"
  let ?run = "pingClientCall whole_usec ?e ''host'' False 5 ''x''"
  let ?pre = "pingClientCall whole_usec ?e ''host'' False (of_nat (2 - 1)) ''x''"
  have h1: "dial ?e ''host'' False"
    and h2: "snd (ping ?e 0 (msg0 ''x'')) = None"
    and h3: "(1 :: nat) \<le> 2" and h4: "int 2 \<le> sint (5 :: int64)"
    by (simp_all add: run_eval)
  have ok: "\<forall>m. reply_ok (ping ?e 1 m)" "\<forall>m. reply_ok (ping ?e 2 m)"
    by (simp_all add: failing_at_simps replies_ok_sim)
  have h5: "\<forall>c m. 0 < c \<and> c < 2 * 2 - 1 \<longrightarrow> reply_ok (ping ?e c m)"
    by (simp add: failing_at_simps replies_ok_sim)
  have h6: "\<forall>m. \<not> reply_ok (ping ?e (2 * 2 - 1) m)"
    by (simp add: failing_at_simps reply_ok_def)
  then have h6': "(\<forall>m. \<not> reply_ok (ping ?e (2 * 2 - 1) m)) \<or> (\<forall>m. \<not> reply_ok (ping ?e (2 * 2) m))"
    by blast
  have run: "?run = Some (Aborted (Fatalf ''grpc error from Ping1 %v'' ''unavailable''), final ?run)"
    by (simp add: run_eval final_def)
  have vals: "rttHistogram (final ?run) = [10000, 10000, 10000]" "skewHistogram (final ?run) = [0]"
    "length (calls (final ?run)) = 4"
    by (simp_all add: run_eval final_def)
  from failed_call_aborts_run [OF h1 h2 h3 h4 h5 h6', of whole_usec] obtain a st st' where
    "?run = Some (Aborted a, st)" "?pre = Some (Returned, st')" "rttHistogram st = rttHistogram st'"
    by blast
  with vals(1) have "rttHistogram (final ?pre) = [10000, 10000, 10000]"
    by (simp add: final_def)
  with h1 h2 h3 h4 ok h6 run vals show ?thesis
    by blast
qed

text \<open>
  Claim C4. For every iteration count \<open>n \<ge> 1\<close>, a run of the client that returns has
  recorded exactly \<open>3n\<close> round-trip samples and exactly \<open>n\<close> skew samples; the samples
  are, in the order of the iterations, the three differences \<open>t2a - t1a\<close>, \<open>t3a - t2a\<close>,
  \<open>t2b - t1b\<close> and the skew \<open>t1b + (t2b - t1b) / 2 - t2a\<close> of each iteration, each
  converted from nanoseconds by \<open>usec\<close> (\<^verbatim>\<open>float64(v) / 1000.\<close>).
\<close>

theorem returned_run_samples:
  assumes "1 \<le>s n"
    and "pingClientCall usec e serverAddr tls n payload = Some (Returned, st)"
  shows "length (rttHistogram st) = 3 * nat (sint n) \<and>
         length (skewHistogram st) = nat (sint n) \<and>
         rttHistogram st = concat (map (rtt_samples usec e (calls st)) [0..<nat (sint n)]) \<and>
         skewHistogram st = map (skew_sample usec e (calls st)) [0..<nat (sint n)]"
  using assms(2)
proof (cases rule: pingClientCall_cases)
  case returned
  from returned(3) have "rttHistogram st = concat (map (rtt_samples usec e (calls st)) [0..<nat (sint n)])"
    and "skewHistogram st = map (skew_sample usec e (calls st)) [0..<nat (sint n)]"
    by (simp_all add: completed_def samples_ok_def)
  with completed_lengths [OF returned(3)] show ?thesis
    by blast
qed simp_all

text \<open>
  The run of the specification's scenario: 5 ms each way, no clock offset, 3 iterations.
  It returns with 9 round-trip samples of 10000 microseconds and 3 skew samples of 0.
\<close>

theorem returned_run_samples_witness:
  "(1 :: int64) \<le>s 3 \<and>
   pingClientCall whole_usec (sim_env 1000 5000000 0) ''host'' False 3 ''x'' =
     Some (Returned, final (pingClientCall whole_usec (sim_env 1000 5000000 0) ''host'' False 3 ''x'')) \<and>
   rttHistogram (final (pingClientCall whole_usec (sim_env 1000 5000000 0) ''host'' False 3 ''x'')) =
     [10000, 10000, 10000, 10000, 10000, 10000, 10000, 10000, 10000] \<and>
   skewHistogram (final (pingClientCall whole_usec (sim_env 1000 5000000 0) ''host'' False 3 ''x'')) =
     [0, 0, 0] \<and>
   length (rttHistogram (final (pingClientCall whole_usec (sim_env 1000 5000000 0) ''host'' False 3 ''x''))) = 9 \<and>
   length (skewHistogram (final (pingClientCall whole_usec (sim_env 1000 5000000 0) ''host'' False 3 ''x''))) = 3"
proof -
  let ?run = "pingClientCall whole_usec (sim_env 1000 5000000 0) ''host'' False 3 ''x''"
  have h: "(1 :: int64) \<le>s 3"
    by (simp add: word_sle_eq)
  have "\<exists>st. ?run = Some (Returned, st)"
    by (simp add: run_eval)
  then obtain st where run: "?run = Some (Returned, st)" ..
  have vals: "rttHistogram (final ?run) = [10000, 10000, 10000, 10000, 10000, 10000, 10000, 10000, 10000]"
    "skewHistogram (final ?run) = [0, 0, 0]"
    by (simp_all add: run_eval final_def)
  from returned_run_samples [OF h run]
  have "length (rttHistogram st) = 3 * nat (sint (3 :: int64))"
    and "length (skewHistogram st) = nat (sint (3 :: int64))"
    by blast+
  then have "length (rttHistogram st) = 9" and "length (skewHistogram st) = 3"
    by simp_all
  with h run vals show ?thesis
    by (simp add: final_def)
qed

text \<open>
  Claim C5. In every iteration \<open>i\<close> of a run, the second timed call (call \<open>2i\<close> of the
  run, the warm-up being call 0) sends the message the first timed call sent: its
  timestamp is \<^verbatim>\<open>t1a\<close>, the client's reading taken before the first send of the
  iteration, and its sequence number is \<open>i\<close>. This holds however the run ended.
\<close>

theorem second_call_resends_message:
  assumes "pingClientCall usec e serverAddr tls n payload = Some (r, st)"
    and "0 < i" and "2 * i < length (calls st)"
  shows "fst (calls st ! (2 * i)) = fst (calls st ! (2 * i - 1)) \<and>
         Ts (fst (calls st ! (2 * i))) = t1a e (i - 1) \<and>
         Seq (fst (calls st ! (2 * i))) = of_nat i"
proof -
  have "requests_ok e (calls st)"
    using assms(1)
  proof (cases rule: pingClientCall_cases)
    case no_connection
    with assms(3) show ?thesis by (simp add: init_state_def)
  next
    case (warm_up_failed er)
    with assms(2,3) show ?thesis by (simp add: warmed_up_def init_state_def)
  next
    case returned
    then show ?thesis by (simp add: completed_def)
  next
    case (cut a J)
    then show ?thesis by (simp add: cut_short_def)
  qed
  with assms(2,3) have "request_ok e (calls st) (2 * i)"
    by (simp add: requests_ok_def)
  then have same: "fst (calls st ! (2 * i)) = fst (calls st ! (2 * i - 1))"
    and stamp: "Ts (fst (calls st ! (2 * i))) = t1a e ((2 * i - 1) div 2)"
    and count: "Seq (fst (calls st ! (2 * i))) = of_nat ((2 * i - 1) div 2) + 1"
    unfolding request_ok_def by auto
  from assms(2) have "(2 * i - 1) div 2 = i - 1"
    by presburger
  moreover from assms(2) have "(of_nat (i - 1) + 1 :: int64) = of_nat i"
    by (cases i) simp_all
  ultimately have "Ts (fst (calls st ! (2 * i))) = t1a e (i - 1)"
    and "Seq (fst (calls st ! (2 * i))) = of_nat i"
    using stamp count by simp_all
  with same show ?thesis
    by blast
qed

text \<open>
  In the scenario of the specification, both calls of iteration 2 send sequence number 2
  and the reading 20001000 taken at the start of that iteration.
\<close>

theorem second_call_resends_message_witness:
  "pingClientCall whole_usec (sim_env 1000 5000000 0) ''host'' False 3 ''x'' =
     Some (Returned, final (pingClientCall whole_usec (sim_env 1000 5000000 0) ''host'' False 3 ''x'')) \<and>
   (0 :: nat) < 2 \<and>
   2 * 2 < length (calls (final (pingClientCall whole_usec (sim_env 1000 5000000 0) ''host'' False 3 ''x''))) \<and>
   fst (calls (final (pingClientCall whole_usec (sim_env 1000 5000000 0) ''host'' False 3 ''x'')) ! (2 * 2)) =
     \<lparr>Seq = 2, Ts = 20001000, Payload = ''x''\<rparr> \<and>
   fst (calls (final (pingClientCall whole_usec (sim_env 1000 5000000 0) ''host'' False 3 ''x'')) ! (2 * 2 - 1)) =
     \<lparr>Seq = 2, Ts = 20001000, Payload = ''x''\<rparr> \<and>
   t1a (sim_env 1000 5000000 0) (2 - 1) = 20001000"
proof -
  let ?run = "pingClientCall whole_usec (sim_env 1000 5000000 0) ''host'' False 3 ''x''"
  have "\<exists>st. ?run = Some (Returned, st)"
    by (simp add: run_eval)
  then have run: "?run = Some (Returned, final ?run)"
    by (auto simp: final_def)
  have pos: "(0 :: nat) < 2"
    by simp
  have len: "2 * 2 < length (calls (final ?run))"
    by (simp add: run_eval final_def)
  have sent: "fst (calls (final ?run) ! (2 * 2)) = \<lparr>Seq = 2, Ts = 20001000, Payload = ''x''\<rparr>"
    by (simp add: run_eval final_def)
  have t: "t1a (sim_env 1000 5000000 0) (2 - 1) = 20001000"
    by (simp add: t1a_def sim_env_simps)
  from second_call_resends_message [OF run pos len]
  have "fst (calls (final ?run) ! (2 * 2 - 1)) = fst (calls (final ?run) ! (2 * 2))"
    by simp
  with sent have "fst (calls (final ?run) ! (2 * 2 - 1)) = \<lparr>Seq = 2, Ts = 20001000, Payload = ''x''\<rparr>"
    by (simp only:)
  with run pos len sent t show ?thesis
    by blast
qed

text \<open>
  Claim C6, as amended. In a run in which, within every iteration that recorded
  samples, neither clock reads less than it read before (\<open>t1a \<le> t2a \<le> t3a\<close> and
  \<open>t1b \<le> t2b\<close>, as in every run with non-decreasing clocks) and the two readings of
  each difference are less than \<open>2\<^sup>6\<^sup>3\<close> nanoseconds apart, every round-trip sample
  recorded is the conversion of a non-negative number of nanoseconds.
\<close>

theorem rtt_samples_nonnegative:
  assumes "pingClientCall usec e serverAddr tls n payload = Some (r, st)"
    and "\<forall>j<length (skewHistogram st).
           sint (t1a e j) \<le> sint (t2a e j) \<and> sint (t2a e j) \<le> sint (t3a e j) \<and>
           sint (t1b (calls st) j) \<le> sint (t2b (calls st) j)"
    and "\<forall>j<length (skewHistogram st).
           sint (t2a e j) - sint (t1a e j) < 2 ^ 63 \<and> sint (t3a e j) - sint (t2a e j) < 2 ^ 63 \<and>
           sint (t2b (calls st) j) - sint (t1b (calls st) j) < 2 ^ 63"
  shows "\<exists>vs. rttHistogram st = map usec vs \<and> (\<forall>v\<in>set vs. 0 \<le>s v)"
proof -
  let ?J = "length (skewHistogram st)"
  let ?ns = "\<lambda>j. [t2a e j - t1a e j, t3a e j - t2a e j, t2b (calls st) j - t1b (calls st) j]"
  let ?vs = "concat (map ?ns [0..<?J])"
  from run_sampled [OF assms(1)]
  have "rttHistogram st = concat (map (rtt_samples usec e (calls st)) [0..<?J])"
    by (simp add: samples_ok_def)
  also have "\<dots> = concat (map (\<lambda>j. map usec (?ns j)) [0..<?J])"
    by (simp add: rtt_samples_def [abs_def])
  also have "\<dots> = map usec ?vs"
    by (simp add: map_concat comp_def)
  finally have "rttHistogram st = map usec ?vs" .
  moreover have "\<forall>v\<in>set ?vs. 0 \<le>s v"
  proof
    fix v assume "v \<in> set ?vs"
    then obtain j where j: "j < ?J" and v: "v \<in> set (?ns j)"
      by auto
    from j assms(2,3) have "0 \<le>s t2a e j - t1a e j" and "0 \<le>s t3a e j - t2a e j"
      and "0 \<le>s t2b (calls st) j - t1b (calls st) j"
      by (simp_all add: diff_nonneg)
    with v show "0 \<le>s v"
      by auto
  qed
  ultimately show ?thesis
    by blast
qed

text \<open>
  In the simulated network the three round trips of the first iteration are 10
  milliseconds each.
\<close>

theorem rtt_samples_nonnegative_witness:
  "pingClientCall whole_usec (sim_env 1000 5000000 250000) ''host'' False 1 ''x'' =
     Some (Returned, final (pingClientCall whole_usec (sim_env 1000 5000000 250000) ''host'' False 1 ''x'')) \<and>
   sint (t1a (sim_env 1000 5000000 250000) 0) \<le> sint (t2a (sim_env 1000 5000000 250000) 0) \<and>
   sint (t2a (sim_env 1000 5000000 250000) 0) \<le> sint (t3a (sim_env 1000 5000000 250000) 0) \<and>
   sint (t1b (calls (final (pingClientCall whole_usec (sim_env 1000 5000000 250000) ''host'' False 1 ''x''))) 0)
     \<le> sint (t2b (calls (final (pingClientCall whole_usec (sim_env 1000 5000000 250000) ''host'' False 1 ''x''))) 0) \<and>
   sint (t2a (sim_env 1000 5000000 250000) 0) - sint (t1a (sim_env 1000 5000000 250000) 0) < 2 ^ 63 \<and>
   sint (t3a (sim_env 1000 5000000 250000) 0) - sint (t2a (sim_env 1000 5000000 250000) 0) < 2 ^ 63 \<and>
   sint (t2b (calls (final (pingClientCall whole_usec (sim_env 1000 5000000 250000) ''host'' False 1 ''x''))) 0) -
     sint (t1b (calls (final (pingClientCall whole_usec (sim_env 1000 5000000 250000) ''host'' False 1 ''x''))) 0) < 2 ^ 63 \<and>
   (\<exists>vs. rttHistogram (final (pingClientCall whole_usec (sim_env 1000 5000000 250000) ''host'' False 1 ''x'')) =
           map whole_usec vs \<and> (\<forall>v\<in>set vs. 0 \<le>s v)) \<and>
   rttHistogram (final (pingClientCall whole_usec (sim_env 1000 5000000 250000) ''host'' False 1 ''x'')) =
     [10000, 10000, 10000]"
proof -
  let ?e = "sim_env 1000 5000000 250000"
  let ?run = "pingClientCall whole_usec ?e ''host'' False 1 ''x''"
  have "\<exists>st. ?run = Some (Returned, st)"
    by (simp add: run_eval)
  then have run: "?run = Some (Returned, final ?run)"
    by (auto simp: final_def)
  have mono: "sint (t1a ?e 0) \<le> sint (t2a ?e 0)" "sint (t2a ?e 0) \<le> sint (t3a ?e 0)"
    "sint (t1b (calls (final ?run)) 0) \<le> sint (t2b (calls (final ?run)) 0)"
    by (simp_all add: run_eval trace_eval)
  have span: "sint (t2a ?e 0) - sint (t1a ?e 0) < 2 ^ 63" "sint (t3a ?e 0) - sint (t2a ?e 0) < 2 ^ 63"
    "sint (t2b (calls (final ?run)) 0) - sint (t1b (calls (final ?run)) 0) < 2 ^ 63"
    by (simp_all add: run_eval trace_eval)
  have len: "length (skewHistogram (final ?run)) = 1"
    by (simp add: run_eval final_def)
  have vals: "rttHistogram (final ?run) = [10000, 10000, 10000]"
    by (simp add: run_eval final_def)
  from mono have h1: "\<forall>j<length (skewHistogram (final ?run)).
      sint (t1a ?e j) \<le> sint (t2a ?e j) \<and> sint (t2a ?e j) \<le> sint (t3a ?e j) \<and>
      sint (t1b (calls (final ?run)) j) \<le> sint (t2b (calls (final ?run)) j)"
    unfolding len by simp
  from span have h2: "\<forall>j<length (skewHistogram (final ?run)).
      sint (t2a ?e j) - sint (t1a ?e j) < 2 ^ 63 \<and> sint (t3a ?e j) - sint (t2a ?e j) < 2 ^ 63 \<and>
      sint (t2b (calls (final ?run)) j) - sint (t1b (calls (final ?run)) j) < 2 ^ 63"
    unfolding len by simp
  from rtt_samples_nonnegative [OF run h1 h2] run mono span vals show ?thesis
    by blast
qed

text \<open>
  Without the bound the claim fails. With the responder whose clock jumps forward, every
  reading of either clock is at least the one before, and the third round-trip
  sample, \<open>t2b - t1b = 10\<^sup>1\<^sup>9\<close> wrapped around, is negative (samples kept in
  nanoseconds here).
\<close>

theorem rtt_samples_nonnegative_counterexample:
  "pingClientCall sint jump_env ''host'' False 1 ''x'' =
     Some (Returned, final (pingClientCall sint jump_env ''host'' False 1 ''x'')) \<and>
   sint (now jump_env 0) \<le> sint (now jump_env 1) \<and> sint (now jump_env 1) \<le> sint (now jump_env 2) \<and>
   sint (reply_Ts (calls (final (pingClientCall sint jump_env ''host'' False 1 ''x''))) 0)
     \<le> sint (reply_Ts (calls (final (pingClientCall sint jump_env ''host'' False 1 ''x''))) 1) \<and>
   sint (reply_Ts (calls (final (pingClientCall sint jump_env ''host'' False 1 ''x''))) 1)
     \<le> sint (reply_Ts (calls (final (pingClientCall sint jump_env ''host'' False 1 ''x''))) 2) \<and>
   rttHistogram (final (pingClientCall sint jump_env ''host'' False 1 ''x'')) =
     [1000000, 1000000, - 8446744073709551616] \<and>
   \<not> 0 \<le>s t2b (calls (final (pingClientCall sint jump_env ''host'' False 1 ''x''))) 0 -
            t1b (calls (final (pingClientCall sint jump_env ''host'' False 1 ''x''))) 0"
proof -
  let ?run = "pingClientCall sint jump_env ''host'' False 1 ''x''"
  have 1: "?run = Some (Returned, final ?run)"
    by (simp add: jump_run final_def)
  have 2: "sint (now jump_env 0) \<le> sint (now jump_env 1)" "sint (now jump_env 1) \<le> sint (now jump_env 2)"
    by (simp_all add: jump_env_simps)
  have 3: "sint (reply_Ts (calls (final ?run)) 0) \<le> sint (reply_Ts (calls (final ?run)) 1)"
    "sint (reply_Ts (calls (final ?run)) 1) \<le> sint (reply_Ts (calls (final ?run)) 2)"
    by (simp_all add: jump_run trace_eval)
  have 4: "rttHistogram (final ?run) = [1000000, 1000000, - 8446744073709551616]"
    by (simp add: jump_run final_def)
  have 5: "\<not> 0 \<le>s t2b (calls (final ?run)) 0 - t1b (calls (final ?run)) 0"
    by (simp add: jump_run trace_eval word_sle_eq)
  from 1 2 3 4 5 show ?thesis
    by blast
qed




text \<open>
  Claim C8. When the requested count \<^verbatim>\<open>exactlyFlag\<close> is zero or negative, the client
  (given its one host argument, in ping mode) runs \<^verbatim>\<open>pingClientCall\<close> with the count
  1. Such a run, when it returns, has made three calls (the warm-up and the two of one
  iteration) and has recorded exactly 3 round-trip samples and 1 skew sample; and it does
  return when the connection is made and the three calls go well.
\<close>

theorem nonpositive_count_runs_once:
  assumes "length (args fl) = 1" and "\<not> doHealthFlag fl" and "exactlyFlag fl \<le>s 0"
  shows "grpcClient usec e fl =
           PingClient (pingClientCall usec e (args fl ! 0) (grpcSecureFlag fl) 1 (payloadFlag fl)) \<and>
         (\<forall>st. pingClientCall usec e (args fl ! 0) (grpcSecureFlag fl) 1 (payloadFlag fl) =
                 Some (Returned, st) \<longrightarrow>
               length (calls st) = 3 \<and> length (rttHistogram st) = 3 \<and>
               length (skewHistogram st) = 1) \<and>
         (dial e (args fl ! 0) (grpcSecureFlag fl) \<and> (\<forall>c m. c \<le> 2 \<longrightarrow> reply_ok (ping e c m)) \<longrightarrow>
            (\<exists>st. grpcClient usec e fl = PingClient (Some (Returned, st))))"
proof (intro conjI allI impI)
  show coerced: "grpcClient usec e fl =
      PingClient (pingClientCall usec e (args fl ! 0) (grpcSecureFlag fl) 1 (payloadFlag fl))"
    using assms by (simp add: grpcClient_def)
  {
    fix st
    assume "pingClientCall usec e (args fl ! 0) (grpcSecureFlag fl) 1 (payloadFlag fl) = Some (Returned, st)"
    then have c: "completed usec e (nat (sint (1 :: int64))) st"
      by (cases rule: pingClientCall_cases) simp_all
    then have c1: "completed usec e 1 st"
      by simp
    from c1 show "length (calls st) = 3"
      by (simp add: completed_def)
    from completed_lengths [OF c1] show "length (rttHistogram st) = 3" "length (skewHistogram st) = 1"
      by simp_all
  }
  assume ok: "dial e (args fl ! 0) (grpcSecureFlag fl) \<and> (\<forall>c m. c \<le> 2 \<longrightarrow> reply_ok (ping e c m))"
  then have "snd (ping e 0 (msg0 (payloadFlag fl))) = None"
    by (simp add: reply_ok_def)
  moreover from ok have "\<forall>c m. 0 < c \<and> c \<le> 2 * nat (sint (1 :: int64)) \<longrightarrow> reply_ok (ping e c m)"
    by simp
  moreover have "sint (1 :: int64) < 2 ^ 63 - 1"
    by simp
  ultimately obtain st where
    "pingClientCall usec e (args fl ! 0) (grpcSecureFlag fl) 1 (payloadFlag fl) = Some (Returned, st)"
    using run_returns [of e "args fl ! 0" "grpcSecureFlag fl" "payloadFlag fl" 1 usec] ok by blast
  with coerced show "\<exists>st. grpcClient usec e fl = PingClient (Some (Returned, st))"
    by simp
qed

text \<open>
  Asked for zero calls in the scenario of the specification, the client makes the warm-up
  call and one iteration: three calls, three round-trip samples, one skew sample.
\<close>

theorem nonpositive_count_runs_once_witness:
  "length (args zero_count_flags) = 1 \<and> \<not> doHealthFlag zero_count_flags \<and>
   exactlyFlag zero_count_flags \<le>s 0 \<and>
   grpcClient whole_usec (sim_env 1000 5000000 0) zero_count_flags =
     PingClient (pingClientCall whole_usec (sim_env 1000 5000000 0) ''host'' False 1 ''x'') \<and>
   pingClientCall whole_usec (sim_env 1000 5000000 0) ''host'' False 1 ''x'' =
     Some (Returned, final (pingClientCall whole_usec (sim_env 1000 5000000 0) ''host'' False 1 ''x'')) \<and>
   length (calls (final (pingClientCall whole_usec (sim_env 1000 5000000 0) ''host'' False 1 ''x''))) = 3 \<and>
   rttHistogram (final (pingClientCall whole_usec (sim_env 1000 5000000 0) ''host'' False 1 ''x'')) =
     [10000, 10000, 10000] \<and>
   skewHistogram (final (pingClientCall whole_usec (sim_env 1000 5000000 0) ''host'' False 1 ''x'')) = [0]"
proof -
  let ?e = "sim_env 1000 5000000 0"
  let ?run = "pingClientCall whole_usec ?e ''host'' False 1 ''x''"
  have h: "length (args zero_count_flags) = 1" "\<not> doHealthFlag zero_count_flags"
    "exactlyFlag zero_count_flags \<le>s 0"
    by (simp_all add: zero_count_flags_def)
  from nonpositive_count_runs_once [OF h, of whole_usec ?e]
  have coerced: "grpcClient whole_usec ?e zero_count_flags = PingClient ?run"
    and counts: "\<And>st. ?run = Some (Returned, st) \<Longrightarrow> length (calls st) = 3"
    by (simp_all add: zero_count_flags_def)
  have "\<exists>st. ?run = Some (Returned, st)"
    by (simp add: run_eval)
  then have run: "?run = Some (Returned, final ?run)"
    by (auto simp: final_def)
  have vals: "rttHistogram (final ?run) = [10000, 10000, 10000]" "skewHistogram (final ?run) = [0]"
    by (simp_all add: run_eval final_def)
  from h coerced run counts [OF run] vals show ?thesis
    by blast
qed

text \<open>
  Claim C9. Two runs of the client with the same arguments that took the same clock
  readings and whose calls show the same of the responder, call by call (the timestamp
  of the reply, and whether the call returned an error), have recorded the same
  round-trip samples and the same skew samples, in the same order. Nothing else of the
  replies (their sequence numbers, their payloads) bears on the samples.
\<close>

theorem same_readings_same_samples:
  assumes "pingClientCall usec e1 serverAddr tls n payload = Some (r1, st1)"
    and "pingClientCall usec e2 serverAddr tls n payload = Some (r2, st2)"
    and "map (now e1) [0..<clk st1] = map (now e2) [0..<clk st2]"
    and "map stamp (calls st1) = map stamp (calls st2)"
  shows "rttHistogram st1 = rttHistogram st2 \<and> skewHistogram st1 = skewHistogram st2"
proof -
  let ?J = "length (skewHistogram st1)"
  from sampled_le [OF assms(1,2,4)] sampled_le [OF assms(2,1) assms(4) [symmetric]]
  have J: "length (skewHistogram st2) = ?J"
    by simp
  from assms(3) have "length (map (now e1) [0..<clk st1]) = length (map (now e2) [0..<clk st2])"
    by (rule arg_cong)
  then have clk: "clk st2 = clk st1"
    by simp
  have clock: "now e1 k = now e2 k" if "k < clk st1" for k
  proof -
    from that have "map (now e1) [0..<clk st1] ! k = now e1 k"
      by simp
    moreover from that clk have "map (now e2) [0..<clk st2] ! k = now e2 k"
      by simp
    ultimately show ?thesis
      using assms(3) by (simp only:)
  qed
  have same: "rtt_samples usec e1 (calls st1) j = rtt_samples usec e2 (calls st2) j \<and>
      skew_sample usec e1 (calls st1) j = skew_sample usec e2 (calls st2) j" if "j < ?J" for j
  proof -
    from sampled_inside [OF assms(1) that] have k: "3 * j + 2 < clk st1" and c: "2 * j + 2 < length (calls st1)"
      by simp_all
    from k have "t1a e1 j = t1a e2 j" "t2a e1 j = t2a e2 j" "t3a e1 j = t3a e2 j"
      by (simp_all add: t1a_def t2a_def t3a_def clock)
    moreover from c have "t1b (calls st1) j = t1b (calls st2) j" "t2b (calls st1) j = t2b (calls st2) j"
      by (simp_all add: t1b_def t2b_def stamp_reply_Ts [OF assms(4)])
    ultimately show ?thesis
      by (simp add: rtt_samples_def skew_sample_def)
  qed
  have "map (rtt_samples usec e1 (calls st1)) [0..<?J] = map (rtt_samples usec e2 (calls st2)) [0..<?J]"
    and "map (skew_sample usec e1 (calls st1)) [0..<?J] = map (skew_sample usec e2 (calls st2)) [0..<?J]"
    using same by (auto intro!: map_cong)
  moreover from run_sampled [OF assms(1)] run_sampled [OF assms(2)] J
  have "rttHistogram st1 = concat (map (rtt_samples usec e1 (calls st1)) [0..<?J])"
    and "skewHistogram st1 = map (skew_sample usec e1 (calls st1)) [0..<?J]"
    and "rttHistogram st2 = concat (map (rtt_samples usec e2 (calls st2)) [0..<?J])"
    and "skewHistogram st2 = map (skew_sample usec e2 (calls st2)) [0..<?J]"
    by (simp_all add: samples_ok_def)
  ultimately show ?thesis
    by (simp del: map_eq_conv)
qed

text \<open>
  Two iterations in the simulated network, once with the echo responder and once with a
  responder that returns its own sequence number and payload: the traces differ, the
  readings agree, and so do the samples.
\<close>

theorem same_readings_same_samples_witness:
  "pingClientCall whole_usec (sim_env 1000 5000000 0) ''host'' False 2 ''x'' =
     Some (Returned, final (pingClientCall whole_usec (sim_env 1000 5000000 0) ''host'' False 2 ''x'')) \<and>
   pingClientCall whole_usec (garbling (sim_env 1000 5000000 0)) ''host'' False 2 ''x'' =
     Some (Returned, final (pingClientCall whole_usec (garbling (sim_env 1000 5000000 0)) ''host'' False 2 ''x'')) \<and>
   map (now (sim_env 1000 5000000 0))
       [0..<clk (final (pingClientCall whole_usec (sim_env 1000 5000000 0) ''host'' False 2 ''x''))] =
     map (now (garbling (sim_env 1000 5000000 0)))
       [0..<clk (final (pingClientCall whole_usec (garbling (sim_env 1000 5000000 0)) ''host'' False 2 ''x''))] \<and>
   map stamp (calls (final (pingClientCall whole_usec (sim_env 1000 5000000 0) ''host'' False 2 ''x''))) =
     map stamp (calls (final (pingClientCall whole_usec (garbling (sim_env 1000 5000000 0)) ''host'' False 2 ''x''))) \<and>
   calls (final (pingClientCall whole_usec (sim_env 1000 5000000 0) ''host'' False 2 ''x'')) \<noteq>
     calls (final (pingClientCall whole_usec (garbling (sim_env 1000 5000000 0)) ''host'' False 2 ''x'')) \<and>
   rttHistogram (final (pingClientCall whole_usec (sim_env 1000 5000000 0) ''host'' False 2 ''x'')) =
     rttHistogram (final (pingClientCall whole_usec (garbling (sim_env 1000 5000000 0)) ''host'' False 2 ''x'')) \<and>
   skewHistogram (final (pingClientCall whole_usec (sim_env 1000 5000000 0) ''host'' False 2 ''x'')) =
     skewHistogram (final (pingClientCall whole_usec (garbling (sim_env 1000 5000000 0)) ''host'' False 2 ''x''))"
proof -
  let ?e1 = "sim_env 1000 5000000 0"
  let ?e2 = "garbling (sim_env 1000 5000000 0)"
  let ?run1 = "pingClientCall whole_usec ?e1 ''host'' False 2 ''x''"
  let ?run2 = "pingClientCall whole_usec ?e2 ''host'' False 2 ''x''"
  have "\<exists>st. ?run1 = Some (Returned, st)"
    by (simp add: run_eval)
  then have run1: "?run1 = Some (Returned, final ?run1)"
    by (auto simp: final_def)
  have "\<exists>st. ?run2 = Some (Returned, st)"
    by (simp add: run_eval garbling_simps)
  then have run2: "?run2 = Some (Returned, final ?run2)"
    by (auto simp: final_def)
  have clocks: "map (now ?e1) [0..<clk (final ?run1)] = map (now ?e2) [0..<clk (final ?run2)]"
    by (simp add: run_eval garbling_simps final_def)
  have stamps: "map stamp (calls (final ?run1)) = map stamp (calls (final ?run2))"
    by (simp add: run_eval garbling_simps final_def stamp_def)
  have differ: "calls (final ?run1) \<noteq> calls (final ?run2)"
    by (simp add: run_eval garbling_simps final_def)
  from same_readings_same_samples [OF run1 run2 clocks stamps] run1 run2 clocks stamps differ
  show ?thesis
    by blast
qed

text \<open>
  Claim C10. In the loop body the client's clock (\<^verbatim>\<open>t3a\<close>) and the timestamp of the
  second reply (\<^verbatim>\<open>res2.Ts\<close>) are read before the error of the second call is looked
  at. So, after a first call that went well: a second call that returns no message ends
  the pass in the nil dereference, three clock readings taken, whether or not it
  returned an error; a second call that returned a message and an error ends it in the
  fatal log of the error check, after the same readings; a second call that succeeded
  (a message, no error) completes the pass, the read is safe and the error branch is not
  taken. If the transport returns a message exactly when it returns no error, the
  error branch of the second call is never taken at all.
\<close>

theorem second_reply_read_before_error_check:
  assumes "ping e (length (calls st)) (msg\<lparr>Seq := i, Ts := now e (clk st)\<rparr>) = (Some res1, None)"
    and "ping e (Suc (length (calls st))) (msg\<lparr>Seq := i, Ts := now e (clk st)\<rparr>) = (res2, err2)"
  shows "(res2 = None \<longrightarrow>
            (\<exists>st'. iteration usec e i msg st = Inl (NilDereference, st') \<and> clk st' = clk st + 3)) \<and>
         (\<forall>r2 er. res2 = Some r2 \<and> err2 = Some er \<longrightarrow>
            (\<exists>st'. iteration usec e i msg st = Inl (Fatalf ''grpc error from Ping2 %v'' er, st') \<and>
                   clk st' = clk st + 3)) \<and>
         (\<forall>r2. res2 = Some r2 \<and> err2 = None \<longrightarrow>
            (\<exists>st'. iteration usec e i msg st = Inr (r2, st') \<and> clk st' = clk st + 3 \<and>
                   rttHistogram st' = rttHistogram st @
                     [usec (now e (clk st + 1) - now e (clk st)),
                      usec (now e (clk st + 2) - now e (clk st + 1)),
                      usec (Ts r2 - Ts res1)])) \<and>
         ((res2 = None \<longleftrightarrow> err2 \<noteq> None) \<longrightarrow>
            (\<forall>er st'. iteration usec e i msg st \<noteq> Inl (Fatalf ''grpc error from Ping2 %v'' er, st')))"
  unfolding iteration_unfold Let_def
  using assms by (auto split: option.splits)

text \<open>
  With the transport failing at the second timed call (no message, an error), the first
  pass ends in the nil dereference after three clock readings, nothing recorded.
\<close>

theorem second_reply_read_before_error_check_witness:
  "ping (failing_at 2 (sim_env 1000 5000000 0)) (length (calls (warmed_up (failing_at 2 (sim_env 1000 5000000 0)) ''x'' :: int state)))
     (msg0 ''x''\<lparr>Seq := 1, Ts := now (failing_at 2 (sim_env 1000 5000000 0)) (clk (warmed_up (failing_at 2 (sim_env 1000 5000000 0)) ''x'' :: int state))\<rparr>) =
     (Some \<lparr>Seq = 1, Ts = 5001000, Payload = ''x''\<rparr>, None) \<and>
   ping (failing_at 2 (sim_env 1000 5000000 0)) (Suc (length (calls (warmed_up (failing_at 2 (sim_env 1000 5000000 0)) ''x'' :: int state))))
     (msg0 ''x''\<lparr>Seq := 1, Ts := now (failing_at 2 (sim_env 1000 5000000 0)) (clk (warmed_up (failing_at 2 (sim_env 1000 5000000 0)) ''x'' :: int state))\<rparr>) =
     (None, Some ''unavailable'') \<and>
   (\<exists>st'. iteration whole_usec (failing_at 2 (sim_env 1000 5000000 0)) 1 (msg0 ''x'')
            (warmed_up (failing_at 2 (sim_env 1000 5000000 0)) ''x'') = Inl (NilDereference, st') \<and>
          clk st' = 3 \<and> rttHistogram st' = [])"
proof -
  let ?e = "failing_at 2 (sim_env 1000 5000000 0)"
  let ?st = "warmed_up ?e ''x'' :: int state"
  let ?m = "msg0 ''x''\<lparr>Seq := 1, Ts := now ?e (clk ?st)\<rparr>"
  have h1: "ping ?e (length (calls ?st)) ?m = (Some \<lparr>Seq = 1, Ts = 5001000, Payload = ''x''\<rparr>, None)"
    by (simp add: run_eval)
  have h2: "ping ?e (Suc (length (calls ?st))) ?m = (None, Some ''unavailable'')"
    by (simp add: run_eval)
  from second_reply_read_before_error_check [OF h1 h2, of whole_usec]
  obtain st' where it: "iteration whole_usec ?e 1 (msg0 ''x'') ?st = Inl (NilDereference, st')"
    and "clk st' = clk ?st + 3"
    by blast
  then have "clk st' = 3"
    by (simp add: warmed_up_def init_state_def)
  moreover from iteration_Inl_keeps [OF it] have "rttHistogram st' = []"
    by (simp add: warmed_up_def init_state_def)
  ultimately show ?thesis
    using h1 h2 it by blast
qed

end
